theory Spec2Isabelle
  imports Complex_Main "HOL-Library.Word"
begin

section \<open>The region-claiming front-end of TEM-claiming-webapp\<close>

text \<open>
  The repository holds two front-end scripts that share their function names:
  \<^verbatim>\<open>src/unnamed/part_001\<close> (the script with the background poll and the
  \<^verbatim>\<open>renderedClaimIds\<close> cache) and \<^verbatim>\<open>src/unnamed/part_002\<close> (the script headed
  \<^verbatim>\<open>// main.js\<close>). A definition taken from the first script keeps the source's
  name; a definition taken from the second script carries the suffix \<open>_v2\<close>. Where
  the text of a function is the same in both scripts and only the pixel predicate in
  scope differs, the predicate is a parameter of one shared definition.

  JavaScript numbers that hold pixel coordinates are modelled as \<^typ>\<open>int\<close>, click
  coordinates and the \<^verbatim>\<open>REAL\<close> columns of the store as \<^typ>\<open>real\<close>, bytes of a
  pixel buffer as \<^typ>\<open>8 word\<close>.
\<close>

subsection \<open>Pixel buffers\<close>

type_synonym byte = "8 word"

text \<open>
  A read of a typed array outside its range yields \<^verbatim>\<open>undefined\<close> (here \<open>None\<close>);
  a write outside its range is ignored.
\<close>

definition byte_at :: "byte list \<Rightarrow> int \<Rightarrow> byte option" where
  "byte_at xs i = (if 0 \<le> i \<and> i < int (length xs) then Some (xs ! nat i) else None)"

definition set_byte :: "byte list \<Rightarrow> int \<Rightarrow> byte \<Rightarrow> byte list" where
  "set_byte xs i v = (if 0 \<le> i \<and> i < int (length xs) then xs[nat i := v] else xs)"

text \<open>
  \<^verbatim>\<open>a > 200\<close> and \<^verbatim>\<open>r >= tol\<close> on a value that may be \<^verbatim>\<open>undefined\<close>: a comparison
  with \<^verbatim>\<open>undefined\<close> is false.
\<close>

definition js_gt :: "byte option \<Rightarrow> byte \<Rightarrow> bool" where
  "js_gt v c = (case v of None \<Rightarrow> False | Some b \<Rightarrow> c < b)"

definition js_ge :: "byte option \<Rightarrow> byte \<Rightarrow> bool" where
  "js_ge v c = (case v of None \<Rightarrow> False | Some b \<Rightarrow> c \<le> b)"

text \<open>
  The base raster: \<^verbatim>\<open>offscreen.width\<close>, \<^verbatim>\<open>offscreen.height\<close> and \<^verbatim>\<open>baseData\<close>,
  four bytes (R, G, B, A) for each pixel, row by row.
\<close>

record raster =
  width :: int
  height :: int
  baseData :: "byte list"

definition wf_raster :: "raster \<Rightarrow> bool" where
  "wf_raster b = (0 \<le> width b \<and> 0 \<le> height b \<and>
     int (length (baseData b)) = width b * height b * 4)"

subsection \<open>Raster sampler\<close>

text \<open>\<^verbatim>\<open>isBaseWhiteXY\<close> of part_001: exact white, the alpha byte is not read.\<close>

definition isBaseWhiteXY :: "raster \<Rightarrow> int \<Rightarrow> int \<Rightarrow> bool" where
  "isBaseWhiteXY b x y =
     (if x < 0 \<or> y < 0 \<or> x \<ge> width b \<or> y \<ge> height b then False
      else let idx = (y * width b + x) * 4;
               r = byte_at (baseData b) idx;
               g = byte_at (baseData b) (idx + 1);
               bl = byte_at (baseData b) (idx + 2)
           in r = Some 255 \<and> g = Some 255 \<and> bl = Some 255)"

text \<open>\<^verbatim>\<open>isBaseWhiteXY\<close> of part_002: \<^verbatim>\<open>tol = 250\<close>, alpha above 200.\<close>

definition isBaseWhiteXY_v2 :: "raster \<Rightarrow> int \<Rightarrow> int \<Rightarrow> bool" where
  "isBaseWhiteXY_v2 b x y =
     (if x < 0 \<or> y < 0 \<or> x \<ge> width b \<or> y \<ge> height b then False
      else let idx = (y * width b + x) * 4;
               r = byte_at (baseData b) idx;
               g = byte_at (baseData b) (idx + 1);
               bl = byte_at (baseData b) (idx + 2);
               a = byte_at (baseData b) (idx + 3);
               tol = 250
           in js_gt a 200 \<and> js_ge r tol \<and> js_ge g tol \<and> js_ge bl tol)"

record rgba_sample =
  sample_r :: "byte option"
  sample_g :: "byte option"
  sample_b :: "byte option"
  sample_a :: "byte option"

definition sampleBaseRGBA :: "raster \<Rightarrow> int \<Rightarrow> int \<Rightarrow> rgba_sample option" where
  "sampleBaseRGBA b x y =
     (if x < 0 \<or> y < 0 \<or> x \<ge> width b \<or> y \<ge> height b then None
      else let idx = (y * width b + x) * 4
           in Some \<lparr>sample_r = byte_at (baseData b) idx,
                    sample_g = byte_at (baseData b) (idx + 1),
                    sample_b = byte_at (baseData b) (idx + 2),
                    sample_a = byte_at (baseData b) (idx + 3)\<rparr>)"

subsection \<open>Facts about pixel buffers\<close>

lemma pixel_index_bound:
  fixes x y w h :: int
  assumes "0 \<le> x" "x < w" "0 \<le> y" "y < h"
  shows "y * w + x < w * h" and "0 \<le> y * w + x"
proof -
  have "y * w + x < y * w + w" using assms by simp
  also have "\<dots> = (y + 1) * w" by (simp add: algebra_simps)
  also have "\<dots> \<le> h * w"
    using assms by (intro mult_right_mono) auto
  finally show "y * w + x < w * h" by (simp add: mult.commute)
  show "0 \<le> y * w + x" using assms by simp
qed

lemma byte_at_in_range:
  assumes "wf_raster b" "0 \<le> x" "x < width b" "0 \<le> y" "y < height b"
    and "0 \<le> k" "k < 4"
  shows "byte_at (baseData b) ((y * width b + x) * 4 + k)
           = Some (baseData b ! nat ((y * width b + x) * 4 + k))"
proof -
  have "y * width b + x < width b * height b" "0 \<le> y * width b + x"
    using pixel_index_bound [of x "width b" y "height b"] assms by auto
  then have "(y * width b + x) * 4 + k < width b * height b * 4" "0 \<le> (y * width b + x) * 4 + k"
    using assms by auto
  then show ?thesis
    using assms by (simp add: byte_at_def wf_raster_def)
qed

subsection \<open>The claimable predicate\<close>

text \<open>
  C3 (as amended). On a well-formed raster and an in-bounds pixel with channels
  R, G, B, A: the second script's predicate holds iff A exceeds 200 and each of R, G, B
  is at least 250 (both thresholds below 255); the first script's predicate holds iff
  R, G and B are all exactly 255, whatever A is.
\<close>

theorem isBaseWhiteXY_characterisation:
  assumes "wf_raster b" "0 \<le> x" "x < width b" "0 \<le> y" "y < height b"
  shows "(isBaseWhiteXY_v2 b x y \<longleftrightarrow>
            200 < baseData b ! nat ((y * width b + x) * 4 + 3) \<and>
            250 \<le> baseData b ! nat ((y * width b + x) * 4) \<and>
            250 \<le> baseData b ! nat ((y * width b + x) * 4 + 1) \<and>
            250 \<le> baseData b ! nat ((y * width b + x) * 4 + 2))
       \<and> (200::byte) < 255 \<and> (250::byte) < 255
       \<and> (isBaseWhiteXY b x y \<longleftrightarrow>
            baseData b ! nat ((y * width b + x) * 4) = 255 \<and>
            baseData b ! nat ((y * width b + x) * 4 + 1) = 255 \<and>
            baseData b ! nat ((y * width b + x) * 4 + 2) = 255)"
proof -
  have k: "byte_at (baseData b) ((y * width b + x) * 4 + k)
             = Some (baseData b ! nat ((y * width b + x) * 4 + k))"
    if "0 \<le> k" "k < 4" for k
    using byte_at_in_range [OF assms that] .
  have k0: "byte_at (baseData b) ((y * width b + x) * 4)
              = Some (baseData b ! nat ((y * width b + x) * 4))"
    using k [of 0] by simp
  show ?thesis
    using assms(2-5) k0 k [of 1] k [of 2] k [of 3]
    by (simp add: isBaseWhiteXY_def isBaseWhiteXY_v2_def js_gt_def js_ge_def Let_def)
qed

theorem isBaseWhiteXY_characterisation_witness:
  "wf_raster \<lparr>width = 1, height = 1, baseData = [252, 251, 250, 201]\<rparr>
   \<and> isBaseWhiteXY_v2 \<lparr>width = 1, height = 1, baseData = [252, 251, 250, 201]\<rparr> 0 0
   \<and> \<not> isBaseWhiteXY \<lparr>width = 1, height = 1, baseData = [252, 251, 250, 201]\<rparr> 0 0"
  using isBaseWhiteXY_characterisation
    [of "\<lparr>width = 1, height = 1, baseData = [252, 251, 250, 201]\<rparr>" 0 0]
  by (simp add: wf_raster_def)

text \<open>
  The claim as stated fails on the first script: a pixel (254, 254, 254, 255) meets
  every whiteness threshold below 255 with full opacity and is not claimable, and a
  pixel (255, 255, 255, 0), whose alpha exceeds no threshold, is claimable.
\<close>

theorem isBaseWhiteXY_tolerance_counterexample:
  "\<not> isBaseWhiteXY \<lparr>width = 1, height = 1, baseData = [254, 254, 254, 255]\<rparr> 0 0
   \<and> isBaseWhiteXY \<lparr>width = 1, height = 1, baseData = [255, 255, 255, 0]\<rparr> 0 0"
  by (simp add: isBaseWhiteXY_def byte_at_def)


subsection \<open>Seed recovery\<close>

type_synonym point = "int \<times> int"

text \<open>
  The \<^verbatim>\<open>visited\<close> bitmap (\<^verbatim>\<open>new Uint8Array(w * h)\<close>, all zero) is modelled as the
  set of indices whose byte is 1. The body of \<^verbatim>\<open>for (const n of neighbors)\<close>:
\<close>

definition push_neighbor :: "int \<Rightarrow> int \<Rightarrow> int set \<times> point list \<Rightarrow> point \<Rightarrow> int set \<times> point list" where
  "push_neighbor w h vq n =
     (case vq of (visited, q) \<Rightarrow>
        if fst n < 0 \<or> snd n < 0 \<or> fst n \<ge> w \<or> snd n \<ge> h then (visited, q)
        else let idx = snd n * w + fst n
             in if idx \<in> visited then (visited, q)
                else (insert idx visited, q @ [n]))"

definition neighbors :: "point \<Rightarrow> point list" where
  "neighbors p = [(fst p, snd p - 1), (fst p, snd p + 1), (fst p - 1, snd p), (fst p + 1, snd p)]"

lemma push_neighbor_measure:
  assumes "push_neighbor w h (v, q) n = (v', q')"
  shows "card ({0..<w * h} - v') + length q' = card ({0..<w * h} - v) + length q"
proof (cases "fst n < 0 \<or> snd n < 0 \<or> fst n \<ge> w \<or> snd n \<ge> h \<or> snd n * w + fst n \<in> v")
  case True
  then show ?thesis using assms by (auto simp: push_neighbor_def Let_def split: if_splits)
next
  case False
  then have inb: "0 \<le> fst n" "fst n < w" "0 \<le> snd n" "snd n < h" and nv: "snd n * w + fst n \<notin> v"
    by auto
  have eq: "v' = insert (snd n * w + fst n) v" "q' = q @ [n]"
    using assms False by (auto simp: push_neighbor_def Let_def)
  have mem: "snd n * w + fst n \<in> {0..<w * h} - v"
    using pixel_index_bound [OF inb] nv by simp
  have "{0..<w * h} - v' = ({0..<w * h} - v) - {snd n * w + fst n}"
    using eq by auto
  then have "card ({0..<w * h} - v') = card ({0..<w * h} - v) - 1"
    using mem by (simp add: card_Diff_singleton)
  moreover have "card ({0..<w * h} - v) > 0"
    using mem by (metis card_gt_0_iff empty_iff finite_Diff finite_atLeastLessThan_int)
  ultimately show ?thesis using eq by simp
qed

lemma foldl_push_neighbor_measure:
  "foldl (push_neighbor w h) (v, q) ns = (v', q') \<Longrightarrow>
   card ({0..<w * h} - v') + length q' = card ({0..<w * h} - v) + length q"
proof (induction ns arbitrary: v q)
  case Nil
  then show ?case by simp
next
  case (Cons n ns)
  obtain v1 q1 where s: "push_neighbor w h (v, q) n = (v1, q1)" by force
  with Cons.prems have "foldl (push_neighbor w h) (v1, q1) ns = (v', q')" by simp
  from Cons.IH [OF this] push_neighbor_measure [OF s] show ?case by simp
qed

lemma foldl_push_neighbor_length:
  "foldl (push_neighbor w h) (v, q) ns = (v', q') \<Longrightarrow> length q \<le> length q'"
proof (induction ns arbitrary: v q)
  case Nil
  then show ?case by simp
next
  case (Cons n ns)
  obtain v1 q1 where s: "push_neighbor w h (v, q) n = (v1, q1)" by force
  then have "length q \<le> length q1"
    by (auto simp: push_neighbor_def Let_def split: if_splits)
  moreover from Cons.prems s have "foldl (push_neighbor w h) (v1, q1) ns = (v', q')" by simp
  ultimately show ?case using Cons.IH by fastforce
qed

text \<open>The \<^verbatim>\<open>while (head < q.length)\<close> loop; \<open>None\<close> is \<^verbatim>\<open>null\<close>.\<close>

function nearest_loop ::
  "(int \<Rightarrow> int \<Rightarrow> bool) \<Rightarrow> int \<Rightarrow> int \<Rightarrow> int \<Rightarrow> int \<Rightarrow> int \<Rightarrow> int set \<Rightarrow> point list \<Rightarrow> nat
     \<Rightarrow> point option" where
  "nearest_loop white w h sx sy maxDist2 visited q head =
     (if head < length q then
        (let p = q ! head; dx = fst p - sx; dy = snd p - sy
         in if dx * dx + dy * dy > maxDist2
            then nearest_loop white w h sx sy maxDist2 visited q (head + 1)
            else if white (fst p) (snd p) then Some p
            else (case foldl (push_neighbor w h) (visited, q) (neighbors p) of
                    (visited', q') \<Rightarrow>
                      nearest_loop white w h sx sy maxDist2 visited' q' (head + 1)))
      else None)"
  by pat_completeness auto
termination
proof (relation "measure (\<lambda>(white, w, h, sx, sy, maxDist2, visited, q, head).
          card ({0..<w * h} - visited) + (length q - head))", goal_cases)
  case 1
  then show ?case by simp
next
  case (2 white w h sx sy maxDist2 visited q head)
  then show ?case by simp
next
  case (3 white w h sx sy maxDist2 visited q head p dx dy visited' q')
  then have f: "foldl (push_neighbor w h) (visited, q) (neighbors (q ! head)) = (visited', q')"
    by simp
  from foldl_push_neighbor_measure [OF f] foldl_push_neighbor_length [OF f] 3(1)
  show ?case by simp
qed

definition findNearestWhitePixel_with ::
  "(int \<Rightarrow> int \<Rightarrow> bool) \<Rightarrow> int \<Rightarrow> int \<Rightarrow> int \<Rightarrow> int \<Rightarrow> int \<Rightarrow> point option" where
  "findNearestWhitePixel_with white w h sx sy maxRadius =
     (if sx < 0 \<or> sy < 0 \<or> sx \<ge> w \<or> sy \<ge> h then None
      else let maxDist2 = maxRadius * maxRadius
           in nearest_loop white w h sx sy maxDist2 {sy * w + sx} [(sx, sy)] 0)"

definition findNearestWhitePixel :: "raster \<Rightarrow> int \<Rightarrow> int \<Rightarrow> int \<Rightarrow> point option" where
  "findNearestWhitePixel b sx sy maxRadius =
     findNearestWhitePixel_with (isBaseWhiteXY b) (width b) (height b) sx sy maxRadius"

definition findNearestWhitePixel_v2 :: "raster \<Rightarrow> int \<Rightarrow> int \<Rightarrow> int \<Rightarrow> point option" where
  "findNearestWhitePixel_v2 b sx sy maxRadius =
     findNearestWhitePixel_with (isBaseWhiteXY_v2 b) (width b) (height b) sx sy maxRadius"

lemma nearest_loop_sound:
  "nearest_loop white w h sx sy maxDist2 visited q head = Some p \<Longrightarrow>
   white (fst p) (snd p) \<and> (fst p - sx) * (fst p - sx) + (snd p - sy) * (snd p - sy) \<le> maxDist2"
proof (induction white w h sx sy maxDist2 visited q head rule: nearest_loop.induct)
  case (1 white w h sx sy maxDist2 visited q head)
  show ?case
  proof (cases "head < length q")
    case False
    with "1.prems" show ?thesis by simp
  next
    case True
    note hd = this
    let ?p = "q ! head"
    let ?d = "(fst ?p - sx) * (fst ?p - sx) + (snd ?p - sy) * (snd ?p - sy)"
    show ?thesis
    proof (cases "?d > maxDist2")
      case True
      with hd "1.prems" have "nearest_loop white w h sx sy maxDist2 visited q (head + 1) = Some p"
        by (simp add: Let_def)
      with "1.IH"(1) [OF hd refl refl refl] True show ?thesis by simp
    next
      case far: False
      show ?thesis
      proof (cases "white (fst ?p) (snd ?p)")
        case True
        with hd far "1.prems" have "p = ?p" by (simp add: Let_def)
        with True far show ?thesis by simp
      next
        case False
        obtain v' q' where f: "foldl (push_neighbor w h) (visited, q) (neighbors ?p) = (v', q')"
          by force
        with hd far False "1.prems" have "nearest_loop white w h sx sy maxDist2 v' q' (head + 1) = Some p"
          by (simp add: Let_def)
        with "1.IH"(2) [OF hd refl refl refl far False f [symmetric]] show ?thesis by simp
      qed
    qed
  qed
qed

lemma findNearestWhitePixel_with_sound:
  assumes "findNearestWhitePixel_with white w h sx sy r = Some p"
  shows "white (fst p) (snd p)"
    and "(fst p - sx) * (fst p - sx) + (snd p - sy) * (snd p - sy) \<le> r * r"
    and "sqrt (real_of_int ((fst p - sx) * (fst p - sx) + (snd p - sy) * (snd p - sy))) \<le> \<bar>real_of_int r\<bar>"
proof -
  from assms have "nearest_loop white w h sx sy (r * r) {sy * w + sx} [(sx, sy)] 0 = Some p"
    by (simp add: findNearestWhitePixel_with_def Let_def split: if_splits)
  from nearest_loop_sound [OF this]
  show w: "white (fst p) (snd p)"
    and d: "(fst p - sx) * (fst p - sx) + (snd p - sy) * (snd p - sy) \<le> r * r"
    by auto
  have "sqrt (real_of_int ((fst p - sx) * (fst p - sx) + (snd p - sy) * (snd p - sy)))
          \<le> sqrt (real_of_int (r * r))"
    using d by (simp only: real_sqrt_le_iff of_int_le_iff)
  also have "\<dots> = \<bar>real_of_int r\<bar>" by simp
  finally show "sqrt (real_of_int ((fst p - sx) * (fst p - sx) + (snd p - sy) * (snd p - sy))) \<le> \<bar>real_of_int r\<bar>" .
qed

lemma findNearestWhitePixel_with_self:
  assumes "0 \<le> sx" "sx < w" "0 \<le> sy" "sy < h" "white sx sy"
  shows "findNearestWhitePixel_with white w h sx sy r = Some (sx, sy)"
  using assms by (simp add: findNearestWhitePixel_with_def Let_def)

definition euclid :: "point \<Rightarrow> point \<Rightarrow> real" where
  "euclid p c = sqrt (real_of_int ((fst p - fst c) * (fst p - fst c) + (snd p - snd c) * (snd p - snd c)))"

definition two_pixel_row :: raster where
  "two_pixel_row = \<lparr>width = 2, height = 1, baseData = [0, 0, 0, 255, 255, 255, 255, 255]\<rparr>"

text \<open>
  C7. For a query point \<open>(x, y)\<close> and a radius \<open>maxRadius \<ge> 0\<close>, in either script:
  a point returned by \<^verbatim>\<open>findNearestWhitePixel\<close> satisfies that script's claimable
  predicate and lies at Euclidean distance at most \<open>maxRadius\<close> from \<open>(x, y)\<close>; and
  when no claimable pixel lies within that distance the function returns \<^verbatim>\<open>null\<close>.
  The function is total, so it always returns a point or \<^verbatim>\<open>null\<close>.
\<close>

theorem findNearestWhitePixel_within_radius:
  assumes "0 \<le> maxRadius"
  shows "(findNearestWhitePixel b x y maxRadius = Some p \<longrightarrow>
            isBaseWhiteXY b (fst p) (snd p) \<and> euclid p (x, y) \<le> real_of_int maxRadius)
       \<and> ((\<forall>c. isBaseWhiteXY b (fst c) (snd c) \<longrightarrow> \<not> euclid c (x, y) \<le> real_of_int maxRadius) \<longrightarrow>
            findNearestWhitePixel b x y maxRadius = None)
       \<and> (findNearestWhitePixel_v2 b x y maxRadius = Some p \<longrightarrow>
            isBaseWhiteXY_v2 b (fst p) (snd p) \<and> euclid p (x, y) \<le> real_of_int maxRadius)
       \<and> ((\<forall>c. isBaseWhiteXY_v2 b (fst c) (snd c) \<longrightarrow> \<not> euclid c (x, y) \<le> real_of_int maxRadius) \<longrightarrow>
            findNearestWhitePixel_v2 b x y maxRadius = None)"
proof -
  have sound: "white (fst c) (snd c) \<and> euclid c (x, y) \<le> real_of_int maxRadius"
    if "findNearestWhitePixel_with white (width b) (height b) x y maxRadius = Some c"
    for white c
    using findNearestWhitePixel_with_sound(1,3) [OF that] assms
    by (simp add: euclid_def)
  have none: "findNearestWhitePixel_with white (width b) (height b) x y maxRadius = None"
    if "\<forall>c. white (fst c) (snd c) \<longrightarrow> \<not> euclid c (x, y) \<le> real_of_int maxRadius"
    for white
  proof (cases "findNearestWhitePixel_with white (width b) (height b) x y maxRadius")
    case None
    then show ?thesis .
  next
    case (Some c)
    from sound [OF this] that show ?thesis by blast
  qed
  show ?thesis
    unfolding findNearestWhitePixel_def findNearestWhitePixel_v2_def
    using sound none by blast
qed

lemma two_pixel_row_white: "isBaseWhiteXY two_pixel_row x y \<longleftrightarrow> x = 1 \<and> y = 0"
proof (cases "0 \<le> x \<and> x < 2 \<and> y = 0")
  case False
  then show ?thesis by (auto simp: isBaseWhiteXY_def two_pixel_row_def)
next
  case True
  then have "x = 0 \<or> x = 1" by auto
  with True show ?thesis
    by (auto simp: isBaseWhiteXY_def two_pixel_row_def byte_at_def)
qed

theorem findNearestWhitePixel_within_radius_witness:
  "(0::int) \<le> 5
   \<and> findNearestWhitePixel two_pixel_row 0 0 5 = Some (1, 0)
   \<and> isBaseWhiteXY two_pixel_row 1 0
   \<and> euclid (1, 0) (0, 0) \<le> 5
   \<and> findNearestWhitePixel two_pixel_row 0 0 0 = None"
proof -
  have r: "findNearestWhitePixel two_pixel_row 0 0 5 = Some (1, 0)"
    by code_simp
  have far: "\<forall>c. isBaseWhiteXY two_pixel_row (fst c) (snd c) \<longrightarrow> \<not> euclid c (0, 0) \<le> real_of_int 0"
    by (auto simp: two_pixel_row_white euclid_def)
  from findNearestWhitePixel_within_radius [of 5 two_pixel_row 0 0 "(1, 0)"] r
       findNearestWhitePixel_within_radius [of 0 two_pixel_row 0 0 "(1, 0)"] far
  show ?thesis by simp
qed

text \<open>
  C10. In either script, a query point that satisfies the script's claimable predicate
  (and is therefore in bounds) is returned itself, for every \<open>maxRadius\<close>: the loop
  examines the query point first, at distance zero.
\<close>

theorem findNearestWhitePixel_claimable_query:
  "(isBaseWhiteXY b x y \<longrightarrow> findNearestWhitePixel b x y maxRadius = Some (x, y))
   \<and> (isBaseWhiteXY_v2 b x y \<longrightarrow> findNearestWhitePixel_v2 b x y maxRadius = Some (x, y))"
proof -
  have "findNearestWhitePixel b x y maxRadius = Some (x, y)" if "isBaseWhiteXY b x y"
  proof -
    from that have "0 \<le> x" "x < width b" "0 \<le> y" "y < height b"
      by (auto simp: isBaseWhiteXY_def split: if_splits)
    then show ?thesis
      unfolding findNearestWhitePixel_def
      using that by (rule findNearestWhitePixel_with_self)
  qed
  moreover have "findNearestWhitePixel_v2 b x y maxRadius = Some (x, y)" if "isBaseWhiteXY_v2 b x y"
  proof -
    from that have "0 \<le> x" "x < width b" "0 \<le> y" "y < height b"
      by (auto simp: isBaseWhiteXY_v2_def split: if_splits)
    then show ?thesis
      unfolding findNearestWhitePixel_v2_def
      using that by (rule findNearestWhitePixel_with_self)
  qed
  ultimately show ?thesis by blast
qed

theorem findNearestWhitePixel_claimable_query_witness:
  "isBaseWhiteXY two_pixel_row 1 0
   \<and> findNearestWhitePixel two_pixel_row 1 0 0 = Some (1, 0)
   \<and> isBaseWhiteXY_v2 two_pixel_row 1 0
   \<and> findNearestWhitePixel_v2 two_pixel_row 1 0 0 = Some (1, 0)"
proof -
  have w: "isBaseWhiteXY two_pixel_row 1 0" "isBaseWhiteXY_v2 two_pixel_row 1 0"
    by (simp_all add: two_pixel_row_def isBaseWhiteXY_def isBaseWhiteXY_v2_def byte_at_def
        js_gt_def js_ge_def)
  from findNearestWhitePixel_claimable_query [of two_pixel_row 1 0 0] w
  show ?thesis by simp
qed

declare nearest_loop.simps [simp del]

subsection \<open>Flood fill\<close>

text \<open>\<^verbatim>\<open>fillRGBA\<close>, an array of four numbers in 0..255.\<close>

record rgba =
  red :: byte
  green :: byte
  blue :: byte
  alpha :: byte

definition getIndex :: "int \<Rightarrow> int \<Rightarrow> int \<Rightarrow> int" where
  "getIndex w x y = (y * w + x) * 4"

text \<open>\<^verbatim>\<open>data[idx + 3] !== 0\<close>; \<^verbatim>\<open>undefined !== 0\<close> is true.\<close>

definition pixelHasFill :: "byte list \<Rightarrow> int \<Rightarrow> bool" where
  "pixelHasFill d idx = (byte_at d (idx + 3) \<noteq> Some 0)"

text \<open>
  The variables of one call of \<^verbatim>\<open>floodFillOverlay\<close>: the pixel buffer
  \<^verbatim>\<open>imgData.data\<close> read from the overlay, the \<^verbatim>\<open>visited\<close> bitmap (as the set of
  indices whose byte is 1), the work stack (its top is the head of the list), the
  counter and the bounding box.
\<close>

record scan =
  data :: "byte list"
  visited :: "int set"
  stack :: "point list"
  filledCount :: nat
  minX :: int
  minY :: int
  maxX :: int
  maxY :: int

text \<open>
  The test that both scripts repeat for a neighbour \<open>(x, y)\<close>:
  \<^verbatim>\<open>isBaseWhiteXY(x, y) && !pixelHasFill(getIndex(x, y)) && !visited[y * w + x]\<close>.
\<close>

definition fillable :: "(int \<Rightarrow> int \<Rightarrow> bool) \<Rightarrow> int \<Rightarrow> byte list \<Rightarrow> int set \<Rightarrow> int \<Rightarrow> int \<Rightarrow> bool" where
  "fillable white w d vis x y =
     (white x y \<and> \<not> pixelHasFill d (getIndex w x y) \<and> y * w + x \<notin> vis)"

text \<open>\<^verbatim>\<open>while (x > 0 && ...(x - 1, y)...) x--\<close>\<close>

function walk_left :: "(int \<Rightarrow> int \<Rightarrow> bool) \<Rightarrow> int \<Rightarrow> byte list \<Rightarrow> int set \<Rightarrow> int \<Rightarrow> int \<Rightarrow> int" where
  "walk_left white w d vis x y =
     (if x > 0 \<and> fillable white w d vis (x - 1) y then walk_left white w d vis (x - 1) y else x)"
  by pat_completeness auto
termination
  by (relation "measure (\<lambda>(white, w, d, vis, x, y). nat x)") auto

declare walk_left.simps [simp del]

text \<open>The four byte writes, the \<^verbatim>\<open>visited\<close> mark, the counter and the bounding box.\<close>

definition paint_pixel :: "int \<Rightarrow> rgba \<Rightarrow> int \<Rightarrow> int \<Rightarrow> scan \<Rightarrow> scan" where
  "paint_pixel w fillRGBA i y s =
     (let idx = getIndex w i y;
          d0 = set_byte (data s) idx (red fillRGBA);
          d1 = set_byte d0 (idx + 1) (green fillRGBA);
          d2 = set_byte d1 (idx + 2) (blue fillRGBA);
          d3 = set_byte d2 (idx + 3) (alpha fillRGBA)
      in s\<lparr>data := d3,
            visited := insert (y * w + i) (visited s),
            filledCount := filledCount s + 1,
            minX := (if i < minX s then i else minX s),
            maxX := (if i > maxX s then i else maxX s),
            minY := (if y < minY s then y else minY s),
            maxY := (if y > maxY s then y else maxY s)\<rparr>)"

text \<open>First script: \<^verbatim>\<open>while (i < w && ...(i, y)...) { paint; i++ }\<close>; returns the final \<open>i\<close>.\<close>

function paint_right :: "(int \<Rightarrow> int \<Rightarrow> bool) \<Rightarrow> int \<Rightarrow> rgba \<Rightarrow> int \<Rightarrow> int \<Rightarrow> scan \<Rightarrow> int \<times> scan" where
  "paint_right white w fillRGBA y i s =
     (if i < w \<and> fillable white w (data s) (visited s) i y
      then paint_right white w fillRGBA y (i + 1) (paint_pixel w fillRGBA i y s)
      else (i, s))"
  by pat_completeness auto
termination
  by (relation "measure (\<lambda>(white, w, fillRGBA, y, i, s). nat (w - i))") auto

declare paint_right.simps [simp del]

text \<open>The body of the loop over the span that pushes the rows above and below.\<close>

definition push_rows ::
  "(int \<Rightarrow> int \<Rightarrow> bool) \<Rightarrow> int \<Rightarrow> int \<Rightarrow> byte list \<Rightarrow> int set \<Rightarrow> int \<Rightarrow> point list \<Rightarrow> int \<Rightarrow> point list" where
  "push_rows white w h d vis y st j =
     (let st1 = (if y > 0 \<and> fillable white w d vis j (y - 1) then (j, y - 1) # st else st)
      in if y < h - 1 \<and> fillable white w d vis j (y + 1) then (j, y + 1) # st1 else st1)"

text \<open>One iteration of \<^verbatim>\<open>while (stack.length)\<close> in the first script, after the pop.\<close>

definition fill_step :: "raster \<Rightarrow> rgba \<Rightarrow> scan \<Rightarrow> point \<Rightarrow> scan" where
  "fill_step b fillRGBA s p =
     (let w = width b; h = height b; x = fst p; y = snd p
      in if y * w + x \<in> visited s \<or> \<not> isBaseWhiteXY b x y then s
         else let x1 = walk_left (isBaseWhiteXY b) w (data s) (visited s) x y
              in case paint_right (isBaseWhiteXY b) w fillRGBA y x1 s of
                   (i, s') \<Rightarrow>
                     let x2 = i - 1
                     in s'\<lparr>stack := foldl (push_rows (isBaseWhiteXY b) w h (data s') (visited s') y)
                                      (stack s') [x1..x2]\<rparr>)"

lemma isBaseWhiteXY_in_bounds:
  "isBaseWhiteXY b x y \<Longrightarrow> 0 \<le> x \<and> x < width b \<and> 0 \<le> y \<and> y < height b"
  by (auto simp: isBaseWhiteXY_def split: if_splits)

lemma isBaseWhiteXY_v2_in_bounds:
  "isBaseWhiteXY_v2 b x y \<Longrightarrow> 0 \<le> x \<and> x < width b \<and> 0 \<le> y \<and> y < height b"
  by (auto simp: isBaseWhiteXY_v2_def split: if_splits)

lemma card_unvisited_insert:
  fixes w h :: int
  assumes "0 \<le> x" "x < w" "0 \<le> y" "y < h" "y * w + x \<notin> vis"
  shows "card ({0..<w * h} - insert (y * w + x) vis) < card ({0..<w * h} - vis)"
proof -
  have mem: "y * w + x \<in> {0..<w * h} - vis"
    using pixel_index_bound [OF assms(1-4)] assms(5) by simp
  have "{0..<w * h} - insert (y * w + x) vis = ({0..<w * h} - vis) - {y * w + x}"
    by auto
  moreover have "finite ({0..<w * h} - vis)" by simp
  ultimately show ?thesis
    using mem by (metis card_Diff1_less)
qed

lemma card_unvisited_mono:
  fixes w h :: int
  shows "vis \<subseteq> vis' \<Longrightarrow> card ({0..<w * h} - vis') \<le> card ({0..<w * h} - vis)"
  by (intro card_mono) auto

lemma paint_pixel_simps [simp]:
  "visited (paint_pixel w c i y s) = insert (y * w + i) (visited s)"
  "stack (paint_pixel w c i y s) = stack s"
  "filledCount (paint_pixel w c i y s) = filledCount s + 1"
  by (simp_all add: paint_pixel_def Let_def)

lemma paint_right_facts:
  "paint_right white w c y i s = (i', s') \<Longrightarrow>
   (\<And>x y. white x y \<Longrightarrow> 0 \<le> x \<and> x < w \<and> 0 \<le> y \<and> y < h) \<Longrightarrow>
     i \<le> i' \<and> stack s' = stack s \<and>
     (i' = i \<longrightarrow> s' = s) \<and>
     (i < i' \<longrightarrow> card ({0..<w * h} - visited s') < card ({0..<w * h} - visited s)) \<and>
     card ({0..<w * h} - visited s') \<le> card ({0..<w * h} - visited s)"
proof (induction white w c y i s arbitrary: i' s' rule: paint_right.induct)
  case (1 white w c y i s)
  let ?U = "{0..<w * h}"
  show ?case
  proof (cases "i < w \<and> fillable white w (data s) (visited s) i y")
    case False
    with "1.prems"(1) show ?thesis by (auto simp: paint_right.simps [of white w c y i s])
  next
    case True
    let ?s1 = "paint_pixel w c i y s"
    from True "1.prems"(1) have r: "paint_right white w c y (i + 1) ?s1 = (i', s')"
      by (simp add: paint_right.simps [of white w c y i s])
    note ih = "1.IH" [OF True r "1.prems"(2)]
    from True have wh: "white i y" and nv: "y * w + i \<notin> visited s"
      by (auto simp: fillable_def)
    from "1.prems"(2) [OF wh] have inb: "0 \<le> i" "i < w" "0 \<le> y" "y < h" by auto
    have lt: "card (?U - visited ?s1) < card (?U - visited s)"
      using card_unvisited_insert [OF inb nv] by simp
    from ih lt show ?thesis by auto
  qed
qed

function fill_loop :: "raster \<Rightarrow> rgba \<Rightarrow> scan \<Rightarrow> scan" where
  "fill_loop b fillRGBA s =
     (case stack s of
        [] \<Rightarrow> s
      | p # rest \<Rightarrow> fill_loop b fillRGBA (fill_step b fillRGBA (s\<lparr>stack := rest\<rparr>) p))"
  by pat_completeness auto
termination
proof (relation "measures [\<lambda>(b, c, s). card ({0..<width b * height b} - visited s),
                           \<lambda>(b, c, s). length (stack s)]", goal_cases)
  case 1
  then show ?case by simp
next
  case (2 b c s p rest)
  let ?s0 = "s\<lparr>stack := rest\<rparr>"
  let ?U = "{0..<width b * height b}"
  let ?W = "isBaseWhiteXY b"
  show ?case
  proof (cases "snd p * width b + fst p \<in> visited s \<or> \<not> isBaseWhiteXY b (fst p) (snd p)")
    case True
    then have "fill_step b c ?s0 p = ?s0" by (auto simp: fill_step_def Let_def)
    with 2 show ?thesis by simp
  next
    case False
    let ?x1 = "walk_left ?W (width b) (data s) (visited s) (fst p) (snd p)"
    obtain i s' where pr: "paint_right ?W (width b) c (snd p) ?x1 ?s0 = (i, s')"
      by (cases "paint_right ?W (width b) c (snd p) ?x1 ?s0") blast
    have fs: "fill_step b c ?s0 p = s'\<lparr>stack := foldl (push_rows ?W (width b) (height b) (data s') (visited s') (snd p)) (stack s') [?x1..i - 1]\<rparr>"
      using False pr by (simp add: fill_step_def Let_def)
    from paint_right_facts [OF pr isBaseWhiteXY_in_bounds]
    have f: "?x1 \<le> i" "stack s' = rest"
      "i = ?x1 \<longrightarrow> s' = ?s0"
      "?x1 < i \<longrightarrow> card (?U - visited s') < card (?U - visited s)"
      by auto
    show ?thesis
    proof (cases "i = ?x1")
      case True
      with f fs have "fill_step b c ?s0 p = ?s0" by simp
      with 2 show ?thesis by simp
    next
      case False
      with f have "card (?U - visited s') < card (?U - visited s)" by auto
      with fs show ?thesis by simp
    qed
  qed
qed

declare fill_loop.simps [simp del]

text \<open>
  A region composite pushed to \<^verbatim>\<open>overlayComposites\<close>: the size of its canvas and the
  bounding box. The copy of the pixels is left out; only \<^verbatim>\<open>draw\<close> reads it.
\<close>

record composite =
  regionW :: int
  regionH :: int
  cminX :: int
  cminY :: int
  cmaxX :: int
  cmaxY :: int

text \<open>
  \<^verbatim>\<open>floodFillOverlay\<close> of the first script. The overlay context is its pixel buffer
  (the overlay canvases have the size of the base raster); \<^verbatim>\<open>overlayComposites\<close> is
  passed and returned. The overlay canvases are only written by this script, so
  \<^verbatim>\<open>getImageData\<close> does not throw.
\<close>

definition floodFillOverlay ::
  "raster \<Rightarrow> byte list \<Rightarrow> composite list \<Rightarrow> real \<Rightarrow> real \<Rightarrow> rgba \<Rightarrow> bool \<times> byte list \<times> composite list" where
  "floodFillOverlay b overlay overlayComposites startX startY fillRGBA =
     (let w = width b; h = height b; sx = \<lfloor>startX\<rfloor>; sy = \<lfloor>startY\<rfloor>
      in if sx < 0 \<or> sy < 0 \<or> sx \<ge> w \<or> sy \<ge> h then (False, overlay, overlayComposites)
         else if \<not> isBaseWhiteXY b sx sy then (False, overlay, overlayComposites)
         else let s = fill_loop b fillRGBA
                        \<lparr>data = overlay, visited = {}, stack = [(sx, sy)], filledCount = 0,
                         minX = w, minY = h, maxX = - 1, maxY = - 1\<rparr>
              in if filledCount s = 0 then (False, overlay, overlayComposites)
                 else (True, data s,
                       overlayComposites @
                         [\<lparr>regionW = max 1 (maxX s - minX s + 1),
                           regionH = max 1 (maxY s - minY s + 1),
                           cminX = minX s, cminY = minY s, cmaxX = maxX s, cmaxY = maxY s\<rparr>]))"

subsection \<open>Flood fill (second script)\<close>

text \<open>\<^verbatim>\<open>let x2 = x; while (x2 < w - 1 && ...(x2 + 1, y)...) x2++\<close>\<close>

function walk_right :: "(int \<Rightarrow> int \<Rightarrow> bool) \<Rightarrow> int \<Rightarrow> byte list \<Rightarrow> int set \<Rightarrow> int \<Rightarrow> int \<Rightarrow> int" where
  "walk_right white w d vis x2 y =
     (if x2 < w - 1 \<and> fillable white w d vis (x2 + 1) y then walk_right white w d vis (x2 + 1) y else x2)"
  by pat_completeness auto
termination
  by (relation "measure (\<lambda>(white, w, d, vis, x2, y). nat (w - 1 - x2))") auto

declare walk_right.simps [simp del]

text \<open>The body of \<^verbatim>\<open>for (let i = x; i <= x2; i++)\<close> that fills the span.\<close>

definition paint_unvisited :: "int \<Rightarrow> rgba \<Rightarrow> int \<Rightarrow> scan \<Rightarrow> int \<Rightarrow> scan" where
  "paint_unvisited w fillRGBA y s i =
     (if y * w + i \<in> visited s then s else paint_pixel w fillRGBA i y s)"

text \<open>
  One iteration of \<^verbatim>\<open>while (stack.length)\<close> in the second script, after the pop. The
  popped pixel itself is not tested.
\<close>

definition fill_step_v2 :: "raster \<Rightarrow> rgba \<Rightarrow> scan \<Rightarrow> point \<Rightarrow> scan" where
  "fill_step_v2 b fillRGBA s p =
     (let w = width b; h = height b; x = fst p; y = snd p;
          x1 = walk_left (isBaseWhiteXY_v2 b) w (data s) (visited s) x y;
          x2 = walk_right (isBaseWhiteXY_v2 b) w (data s) (visited s) x1 y;
          s' = foldl (paint_unvisited w fillRGBA y) s [x1..x2]
      in s'\<lparr>stack := foldl (push_rows (isBaseWhiteXY_v2 b) w h (data s') (visited s') y)
                       (stack s') [x1..x2]\<rparr>)"

lemma walk_left_facts:
  "walk_left white w d vis x y \<le> x \<and>
   (walk_left white w d vis x y < x \<longrightarrow> fillable white w d vis (walk_left white w d vis x y) y)"
proof (induction white w d vis x y rule: walk_left.induct)
  case (1 white w d vis x y)
  show ?case
  proof (cases "x > 0 \<and> fillable white w d vis (x - 1) y")
    case False
    then show ?thesis by (auto simp add: walk_left.simps [of white w d vis x y])
  next
    case True
    from "1.IH" [OF True] True show ?thesis
      by (cases "walk_left white w d vis (x - 1) y = x - 1")
         (auto simp: walk_left.simps [of white w d vis x y])
  qed
qed

lemma walk_right_facts:
  "x2 \<le> walk_right white w d vis x2 y \<and>
   (x2 < walk_right white w d vis x2 y \<longrightarrow> fillable white w d vis (walk_right white w d vis x2 y) y)"
proof (induction white w d vis x2 y rule: walk_right.induct)
  case (1 white w d vis x2 y)
  show ?case
  proof (cases "x2 < w - 1 \<and> fillable white w d vis (x2 + 1) y")
    case False
    then show ?thesis by (auto simp add: walk_right.simps [of white w d vis x2 y])
  next
    case True
    from "1.IH" [OF True] True show ?thesis
      by (cases "walk_right white w d vis (x2 + 1) y = x2 + 1")
         (auto simp: walk_right.simps [of white w d vis x2 y])
  qed
qed

lemma paint_span_visited:
  "visited (foldl (paint_unvisited w c y) s xs) = visited s \<union> (\<lambda>i. y * w + i) ` set xs"
  by (induction xs arbitrary: s) (auto simp: paint_unvisited_def)

lemma paint_span_stack:
  "stack (foldl (paint_unvisited w c y) s xs) = stack s"
  by (induction xs arbitrary: s) (auto simp: paint_unvisited_def)

lemma push_rows_fillable:
  "\<exists>new. foldl (push_rows white w h d vis y) st xs = new @ st \<and>
         (\<forall>q \<in> set new. fillable white w d vis (fst q) (snd q))"
proof (induction xs arbitrary: st)
  case Nil
  then show ?case by simp
next
  case (Cons j xs)
  obtain n1 where n1: "push_rows white w h d vis y st j = n1 @ st"
    "\<forall>q \<in> set n1. fillable white w d vis (fst q) (snd q)"
  proof -
    have "\<exists>n1. push_rows white w h d vis y st j = n1 @ st \<and>
            (\<forall>q \<in> set n1. fillable white w d vis (fst q) (snd q))"
      by (auto simp: push_rows_def Let_def)
    then show ?thesis using that by blast
  qed
  from Cons.IH [of "n1 @ st"] obtain n2 where
    n2: "foldl (push_rows white w h d vis y) (n1 @ st) xs = n2 @ n1 @ st"
        "\<forall>q \<in> set n2. fillable white w d vis (fst q) (snd q)"
    by blast
  show ?case
    by (rule exI [of _ "n2 @ n1"]) (use n1 n2 in auto)
qed

definition live :: "int \<Rightarrow> int \<Rightarrow> int set \<Rightarrow> point \<Rightarrow> bool" where
  "live w h vis q = (0 \<le> fst q \<and> fst q < w \<and> 0 \<le> snd q \<and> snd q < h \<and> snd q * w + fst q \<notin> vis)"

lemma fill_step_v2_decreases:
  fixes b c s p rest
  defines "U \<equiv> {0..<width b * height b}"
  defines "t \<equiv> fill_step_v2 b c (s\<lparr>stack := rest\<rparr>) p"
  shows "card (U - visited t) < card (U - visited s) \<or>
         (card (U - visited t) = card (U - visited s) \<and>
          length (filter (\<lambda>q. \<not> live (width b) (height b) (visited t) q) (stack t))
            < length (filter (\<lambda>q. \<not> live (width b) (height b) (visited s) q) (p # rest)))"
proof -
  let ?W = "isBaseWhiteXY_v2 b"
  let ?w = "width b" and ?h = "height b"
  let ?x = "fst p" and ?y = "snd p"
  let ?s0 = "s\<lparr>stack := rest\<rparr>"
  define x1 where "x1 = walk_left ?W ?w (data s) (visited s) ?x ?y"
  define x2 where "x2 = walk_right ?W ?w (data s) (visited s) x1 ?y"
  define s' where "s' = foldl (paint_unvisited ?w c ?y) ?s0 [x1..x2]"
  have t: "t = s'\<lparr>stack := foldl (push_rows ?W ?w ?h (data s') (visited s') ?y) (stack s') [x1..x2]\<rparr>"
    by (simp add: t_def fill_step_v2_def Let_def x1_def x2_def s'_def)
  have V': "visited t = visited s \<union> (\<lambda>i. ?y * ?w + i) ` {x1..x2}"
    by (simp add: t s'_def paint_span_visited)
  have st': "stack s' = rest" by (simp add: s'_def paint_span_stack)
  obtain new where new: "stack t = new @ rest"
    "\<forall>q \<in> set new. fillable ?W ?w (data s') (visited t) (fst q) (snd q)"
    using push_rows_fillable [of ?W ?w ?h "data s'" "visited s'" ?y "stack s'" "[x1..x2]"]
    by (auto simp: t st')
  have le: "x1 \<le> ?x" and x1f: "x1 < ?x \<longrightarrow> fillable ?W ?w (data s) (visited s) x1 ?y"
    using walk_left_facts [of ?W ?w "data s" "visited s" ?x ?y] by (auto simp: x1_def)
  have ge: "x1 \<le> x2" and x2f: "x1 < x2 \<longrightarrow> fillable ?W ?w (data s) (visited s) x2 ?y"
    using walk_right_facts [of x1 ?W ?w "data s" "visited s" ?y] by (auto simp: x2_def)
  have mono: "card (U - visited t) \<le> card (U - visited s)"
    unfolding U_def by (rule card_unvisited_mono) (simp add: V')
  have strict: "card (U - visited t) < card (U - visited s)"
    if "x1 \<le> i" "i \<le> x2" "0 \<le> i" "i < ?w" "0 \<le> ?y" "?y < ?h" "?y * ?w + i \<notin> visited s" for i
  proof -
    have "card (U - insert (?y * ?w + i) (visited s)) < card (U - visited s)"
      unfolding U_def using that by (intro card_unvisited_insert) auto
    moreover have "card (U - visited t) \<le> card (U - insert (?y * ?w + i) (visited s))"
      unfolding U_def using that by (intro card_unvisited_mono) (auto simp: V')
    ultimately show ?thesis by simp
  qed
  show ?thesis
  proof (cases "card (U - visited t) < card (U - visited s)")
    case True
    then show ?thesis by simp
  next
    case False
    with mono have eq: "card (U - visited t) = card (U - visited s)" by simp
    have x1x: "x1 = ?x"
    proof (rule ccontr)
      assume "x1 \<noteq> ?x"
      with le x1f have f: "fillable ?W ?w (data s) (visited s) x1 ?y" by auto
      then have "?W x1 ?y" "?y * ?w + x1 \<notin> visited s" by (auto simp: fillable_def)
      with isBaseWhiteXY_v2_in_bounds [of b x1 ?y] ge strict [of x1] False
      show False by auto
    qed
    have x2x: "x2 = x1"
    proof (rule ccontr)
      assume "x2 \<noteq> x1"
      with ge x2f have f: "fillable ?W ?w (data s) (visited s) x2 ?y" by auto
      then have "?W x2 ?y" "?y * ?w + x2 \<notin> visited s" by (auto simp: fillable_def)
      with isBaseWhiteXY_v2_in_bounds [of b x2 ?y] ge strict [of x2] False
      show False by auto
    qed
    have Vt: "visited t = insert (?y * ?w + ?x) (visited s)"
      using V' x1x x2x by simp
    have pdead: "\<not> live ?w ?h (visited s) p"
    proof
      assume "live ?w ?h (visited s) p"
      then have "0 \<le> ?x" "?x < ?w" "0 \<le> ?y" "?y < ?h" "?y * ?w + ?x \<notin> visited s"
        by (auto simp: live_def)
      with strict [of ?x] x1x x2x False show False by auto
    qed
    have newlive: "live ?w ?h (visited t) q" if "q \<in> set new" for q
    proof -
      from new(2) that have "?W (fst q) (snd q)" "snd q * ?w + fst q \<notin> visited t"
        by (auto simp: fillable_def)
      with isBaseWhiteXY_v2_in_bounds [of b "fst q" "snd q"] show ?thesis
        by (auto simp: live_def)
    qed
    have restlive: "live ?w ?h (visited t) q \<longleftrightarrow> live ?w ?h (visited s) q" for q
    proof (cases "0 \<le> fst q \<and> fst q < ?w \<and> 0 \<le> snd q \<and> snd q < ?h")
      case False
      then show ?thesis by (auto simp: live_def)
    next
      case True
      have "snd q * ?w + fst q \<noteq> ?y * ?w + ?x" if "snd q * ?w + fst q \<notin> visited s"
      proof
        assume e: "snd q * ?w + fst q = ?y * ?w + ?x"
        have "card (U - insert (snd q * ?w + fst q) (visited s)) < card (U - visited s)"
          unfolding U_def using True that by (intro card_unvisited_insert) auto
        with e Vt eq show False by simp
      qed
      with True show ?thesis by (auto simp: live_def Vt)
    qed
    have "filter (\<lambda>q. \<not> live ?w ?h (visited t) q) (stack t)
            = filter (\<lambda>q. \<not> live ?w ?h (visited s) q) rest"
      using newlive by (simp add: new(1) restlive)
    with pdead eq show ?thesis by simp
  qed
qed

function fill_loop_v2 :: "raster \<Rightarrow> rgba \<Rightarrow> scan \<Rightarrow> scan" where
  "fill_loop_v2 b fillRGBA s =
     (case stack s of
        [] \<Rightarrow> s
      | p # rest \<Rightarrow> fill_loop_v2 b fillRGBA (fill_step_v2 b fillRGBA (s\<lparr>stack := rest\<rparr>) p))"
  by pat_completeness auto
termination
proof (relation "measures [\<lambda>(b, c, s). card ({0..<width b * height b} - visited s),
    \<lambda>(b, c, s). length (filter (\<lambda>q. \<not> live (width b) (height b) (visited s) q) (stack s))]",
    goal_cases)
  case 1
  then show ?case by simp
next
  case (2 b c s p rest)
  from fill_step_v2_decreases [where b = b and c = c and s = s and p = p and rest = rest] 2 show ?case by auto
qed

declare fill_loop_v2.simps [simp del]

text \<open>
  \<^verbatim>\<open>floodFillOverlay\<close> of the second script: the bounding box starts at
  \<^verbatim>\<open>maxX = 0, maxY = 0\<close>, the composite's canvas is one pixel smaller in each
  direction, and \<^verbatim>\<open>overlayComposites\<close> keeps at most 50 entries.
\<close>

definition floodFillOverlay_v2 ::
  "raster \<Rightarrow> byte list \<Rightarrow> composite list \<Rightarrow> real \<Rightarrow> real \<Rightarrow> rgba \<Rightarrow> bool \<times> byte list \<times> composite list" where
  "floodFillOverlay_v2 b overlay overlayComposites startX startY fillRGBA =
     (let w = width b; h = height b; sx = \<lfloor>startX\<rfloor>; sy = \<lfloor>startY\<rfloor>
      in if sx < 0 \<or> sy < 0 \<or> sx \<ge> w \<or> sy \<ge> h then (False, overlay, overlayComposites)
         else if \<not> isBaseWhiteXY_v2 b sx sy then (False, overlay, overlayComposites)
         else let s = fill_loop_v2 b fillRGBA
                        \<lparr>data = overlay, visited = {}, stack = [(sx, sy)], filledCount = 0,
                         minX = w, minY = h, maxX = 0, maxY = 0\<rparr>
              in if filledCount s = 0 then (False, overlay, overlayComposites)
                 else let cs = overlayComposites @
                                 [\<lparr>regionW = max 1 (maxX s - minX s),
                                   regionH = max 1 (maxY s - minY s),
                                   cminX = minX s, cminY = minY s, cmaxX = maxX s, cmaxY = maxY s\<rparr>]
                      in (True, data s, if length cs > 50 then tl cs else cs))"

text \<open>
  C4. In either script, when the floored seed is out of bounds or does not satisfy
  the script's claimable predicate, \<^verbatim>\<open>floodFillOverlay\<close> returns \<^verbatim>\<open>false\<close> and the
  overlay buffer (and the list of composites) is the one that was passed in.
\<close>

theorem floodFillOverlay_rejects_seed:
  "(\<lfloor>startX\<rfloor> < 0 \<or> \<lfloor>startY\<rfloor> < 0 \<or> \<lfloor>startX\<rfloor> \<ge> width b \<or> \<lfloor>startY\<rfloor> \<ge> height b
      \<or> \<not> isBaseWhiteXY b \<lfloor>startX\<rfloor> \<lfloor>startY\<rfloor>
    \<longrightarrow> floodFillOverlay b overlay comps startX startY fillRGBA = (False, overlay, comps))
   \<and> (\<lfloor>startX\<rfloor> < 0 \<or> \<lfloor>startY\<rfloor> < 0 \<or> \<lfloor>startX\<rfloor> \<ge> width b \<or> \<lfloor>startY\<rfloor> \<ge> height b
      \<or> \<not> isBaseWhiteXY_v2 b \<lfloor>startX\<rfloor> \<lfloor>startY\<rfloor>
    \<longrightarrow> floodFillOverlay_v2 b overlay comps startX startY fillRGBA = (False, overlay, comps))"
  by (auto simp: floodFillOverlay_def floodFillOverlay_v2_def Let_def)

definition grey200 :: rgba where
  "grey200 = \<lparr>red = 204, green = 204, blue = 204, alpha = 200\<rparr>"

definition opaque_red :: rgba where
  "opaque_red = \<lparr>red = 255, green = 0, blue = 0, alpha = 255\<rparr>"

theorem floodFillOverlay_rejects_seed_witness:
  "\<not> isBaseWhiteXY two_pixel_row \<lfloor>0\<rfloor> \<lfloor>0\<rfloor>
   \<and> floodFillOverlay two_pixel_row [0, 0, 0, 0, 0, 0, 0, 0] [] 0 0 grey200
         = (False, [0, 0, 0, 0, 0, 0, 0, 0], [])
   \<and> \<not> isBaseWhiteXY_v2 two_pixel_row \<lfloor>0\<rfloor> \<lfloor>0\<rfloor>
   \<and> floodFillOverlay_v2 two_pixel_row [0, 0, 0, 0, 0, 0, 0, 0] [] 0 0 grey200
         = (False, [0, 0, 0, 0, 0, 0, 0, 0], [])"
proof -
  have w: "\<not> isBaseWhiteXY two_pixel_row \<lfloor>0\<rfloor> \<lfloor>0\<rfloor>" "\<not> isBaseWhiteXY_v2 two_pixel_row \<lfloor>0\<rfloor> \<lfloor>0\<rfloor>"
    by (simp_all add: two_pixel_row_def isBaseWhiteXY_def isBaseWhiteXY_v2_def byte_at_def
        js_gt_def js_ge_def)
  from floodFillOverlay_rejects_seed
         [of 0 0 two_pixel_row "[0, 0, 0, 0, 0, 0, 0, 0]" "[]" grey200] w
  show ?thesis by simp
qed

definition white_row :: raster where
  "white_row = \<lparr>width = 2, height = 1, baseData = [255, 255, 255, 255, 255, 255, 255, 255]\<rparr>"

definition grey_row :: "byte list" where
  "grey_row = [204, 204, 204, 200, 204, 204, 204, 200]"

definition row_composite :: composite where
  "row_composite = \<lparr>regionW = 1, regionH = 1, cminX = 0, cminY = 0, cmaxX = 1, cmaxY = 0\<rparr>"

definition seed_composite :: composite where
  "seed_composite = \<lparr>regionW = 1, regionH = 1, cminX = 0, cminY = 0, cmaxX = 0, cmaxY = 0\<rparr>"

text \<open>
  C2 fails on the second script. On a raster of two white pixels the first fill from
  \<open>(0, 0)\<close> paints both pixels. A second fill from the same seed on that overlay returns
  \<^verbatim>\<open>true\<close> and writes the seed pixel again: with the same colour the buffer keeps its
  bytes and a second composite is pushed, with another colour the seed pixel changes.
  The loop of the second script tests the neighbours of the popped pixel and never the
  popped pixel itself.
\<close>

theorem floodFillOverlay_v2_refill_paints:
  "floodFillOverlay_v2 white_row [0, 0, 0, 0, 0, 0, 0, 0] [] 0 0 grey200
     = (True, grey_row, [row_composite])
   \<and> floodFillOverlay_v2 white_row grey_row [row_composite] 0 0 grey200
     = (True, grey_row, [row_composite, seed_composite])
   \<and> floodFillOverlay_v2 white_row grey_row [row_composite] 0 0 opaque_red
     = (True, [255, 0, 0, 255, 204, 204, 204, 200], [row_composite, seed_composite])"
  by code_simp

text \<open>The first script on the same input: the second fill returns \<^verbatim>\<open>false\<close>.\<close>

lemma floodFillOverlay_refill_example:
  "floodFillOverlay white_row [0, 0, 0, 0, 0, 0, 0, 0] [] 0 0 grey200
     = (True, grey_row, [\<lparr>regionW = 2, regionH = 1, cminX = 0, cminY = 0, cmaxX = 1, cmaxY = 0\<rparr>])
   \<and> floodFillOverlay white_row grey_row [] 0 0 opaque_red = (False, grey_row, [])"
  by code_simp

subsection \<open>Filling twice from the same seed (first script)\<close>

lemma byte_at_set_byte:
  "byte_at (set_byte xs k v) j
     = (if j = k \<and> 0 \<le> k \<and> k < int (length xs) then Some v else byte_at xs j)"
  by (auto simp: byte_at_def set_byte_def nth_list_update)

lemma paint_pixel_hasFill:
  assumes "alpha c \<noteq> 0"
  shows "pixelHasFill (data (paint_pixel w c i y s)) (q * 4)
           \<longleftrightarrow> q = y * w + i \<or> pixelHasFill (data s) (q * 4)"
proof (cases "q = y * w + i")
  case True
  then show ?thesis
    using assms
    by (auto simp: paint_pixel_def Let_def getIndex_def pixelHasFill_def byte_at_set_byte byte_at_def
        set_byte_def)
next
  case False
  then have "q * 4 + 3 \<noteq> (y * w + i) * 4 + k" if "0 \<le> k" "k < 4" for k
    using that by presburger
  from this [of 0] this [of 1] this [of 2] this [of 3] False show ?thesis
    by (simp add: paint_pixel_def Let_def getIndex_def pixelHasFill_def byte_at_set_byte)
qed

lemma paint_right_result:
  "paint_right white w c y i0 s = (i, s') \<Longrightarrow> alpha c \<noteq> 0 \<Longrightarrow>
     i0 \<le> i
     \<and> visited s' = visited s \<union> {y * w + j |j. i0 \<le> j \<and> j < i}
     \<and> (\<forall>q. pixelHasFill (data s') (q * 4)
              \<longleftrightarrow> pixelHasFill (data s) (q * 4) \<or> (\<exists>j. i0 \<le> j \<and> j < i \<and> q = y * w + j))
     \<and> \<not> (i < w \<and> fillable white w (data s') (visited s') i y)
     \<and> filledCount s' = filledCount s + nat (i - i0)
     \<and> (i = i0 \<longrightarrow> s' = s)"
proof (induction white w c y i0 s arbitrary: i s' rule: paint_right.induct)
  case (1 white w c y i0 s)
  show ?case
  proof (cases "i0 < w \<and> fillable white w (data s) (visited s) i0 y")
    case False
    with "1.prems"(1) have "i = i0" "s' = s"
      by (auto simp: paint_right.simps [of white w c y i0 s])
    with False show ?thesis by auto
  next
    case True
    let ?s1 = "paint_pixel w c i0 y s"
    from True "1.prems"(1) have r: "paint_right white w c y (i0 + 1) ?s1 = (i, s')"
      by (simp add: paint_right.simps [of white w c y i0 s])
    note ih = "1.IH" [OF True r "1.prems"(2)]
    have v: "visited s' = visited s \<union> {y * w + j |j. i0 \<le> j \<and> j < i}"
    proof -
      have "{y * w + j |j. i0 \<le> j \<and> j < i} = insert (y * w + i0) {y * w + j |j. i0 + 1 \<le> j \<and> j < i}"
        using ih by (auto simp: order_le_less)
      with ih show ?thesis by simp
    qed
    have h: "pixelHasFill (data s') (q * 4)
              \<longleftrightarrow> pixelHasFill (data s) (q * 4) \<or> (\<exists>j. i0 \<le> j \<and> j < i \<and> q = y * w + j)" for q
    proof -
      have "(\<exists>j. i0 \<le> j \<and> j < i \<and> q = y * w + j)
              \<longleftrightarrow> q = y * w + i0 \<or> (\<exists>j. i0 + 1 \<le> j \<and> j < i \<and> q = y * w + j)"
        using ih by (auto simp: order_le_less)
      with ih paint_pixel_hasFill [OF "1.prems"(2), of w i0 y s q] show ?thesis by auto
    qed
    have "i0 + 1 \<le> i" using ih by simp
    then have "Suc (nat (i - (i0 + 1))) = nat (i - i0)" by linarith
    with ih have c: "filledCount s' = filledCount s + nat (i - i0)"
      by simp
    from ih v h c show ?thesis by auto
  qed
qed

lemma walk_left_span:
  "walk_left white w d vis x y \<le> x \<and>
   (\<forall>j. walk_left white w d vis x y \<le> j \<and> j < x \<longrightarrow> fillable white w d vis j y)"
proof (induction white w d vis x y rule: walk_left.induct)
  case (1 white w d vis x y)
  show ?case
  proof (cases "x > 0 \<and> fillable white w d vis (x - 1) y")
    case False
    then show ?thesis by (auto simp add: walk_left.simps [of white w d vis x y])
  next
    case True
    have e: "walk_left white w d vis x y = walk_left white w d vis (x - 1) y"
      using True by (simp add: walk_left.simps [of white w d vis x y])
    show ?thesis
      unfolding e
    proof (intro conjI allI impI)
      show "walk_left white w d vis (x - 1) y \<le> x" using "1.IH" [OF True] by simp
    next
      fix j assume j: "walk_left white w d vis (x - 1) y \<le> j \<and> j < x"
      show "fillable white w d vis j y"
      proof (cases "j = x - 1")
        case True
        with \<open>x > 0 \<and> fillable white w d vis (x - 1) y\<close> show ?thesis by simp
      next
        case False
        with j have "j < x - 1" by simp
        with j "1.IH" [OF True] show ?thesis by simp
      qed
    qed
  qed
qed

lemma fill_step_mono:
  assumes "alpha c \<noteq> 0"
  shows "(pixelHasFill (data s) (q * 4) \<longrightarrow> pixelHasFill (data (fill_step b c s p)) (q * 4))
         \<and> filledCount s \<le> filledCount (fill_step b c s p)"
proof (cases "snd p * width b + fst p \<in> visited s \<or> \<not> isBaseWhiteXY b (fst p) (snd p)")
  case True
  then show ?thesis by (auto simp: fill_step_def Let_def)
next
  case False
  let ?x1 = "walk_left (isBaseWhiteXY b) (width b) (data s) (visited s) (fst p) (snd p)"
  obtain i s' where pr: "paint_right (isBaseWhiteXY b) (width b) c (snd p) ?x1 s = (i, s')"
    by (cases "paint_right (isBaseWhiteXY b) (width b) c (snd p) ?x1 s") blast
  have fs: "data (fill_step b c s p) = data s'" "filledCount (fill_step b c s p) = filledCount s'"
    using False pr by (simp_all add: fill_step_def Let_def)
  from paint_right_result [OF pr assms] fs show ?thesis by auto
qed

lemma fill_loop_mono:
  assumes "alpha c \<noteq> 0"
  shows "(pixelHasFill (data s) (q * 4) \<longrightarrow> pixelHasFill (data (fill_loop b c s)) (q * 4))
         \<and> filledCount s \<le> filledCount (fill_loop b c s)"
  using assms
proof (induction b c s rule: fill_loop.induct)
  case (1 b c s)
  show ?case
  proof (cases "stack s")
    case Nil
    then show ?thesis by (simp add: fill_loop.simps [of b c s])
  next
    case (Cons p rest)
    have e: "fill_loop b c s = fill_loop b c (fill_step b c (s\<lparr>stack := rest\<rparr>) p)"
      using Cons by (simp add: fill_loop.simps [of b c s])
    from "1.IH" [OF Cons "1.prems"] fill_step_mono [OF "1.prems", of "s\<lparr>stack := rest\<rparr>" q b p]
    show ?thesis unfolding e by auto
  qed
qed


lemma first_step_fills_seed:
  assumes "alpha c \<noteq> 0" "isBaseWhiteXY b sx sy" "visited s = {}" "filledCount s = 0"
  defines "t \<equiv> fill_step b c s (sx, sy)"
  shows "pixelHasFill (data t) ((sy * width b + sx) * 4)"
    and "sx > 0 \<and> isBaseWhiteXY b (sx - 1) sy \<longrightarrow> pixelHasFill (data t) ((sy * width b + (sx - 1)) * 4)"
    and "filledCount t = 0 \<longrightarrow> data t = data s"
proof -
  let ?W = "isBaseWhiteXY b" and ?w = "width b"
  let ?x1 = "walk_left ?W ?w (data s) (visited s) sx sy"
  obtain i s' where pr: "paint_right ?W ?w c sy ?x1 s = (i, s')"
    by (cases "paint_right ?W ?w c sy ?x1 s") blast
  have t: "data t = data s'" "filledCount t = filledCount s'"
    using assms(2,3) pr by (simp_all add: t_def fill_step_def Let_def)
  from paint_right_result [OF pr assms(1)] assms(3,4)
  have le: "?x1 \<le> i"
    and vis: "visited s' = {sy * ?w + j |j. ?x1 \<le> j \<and> j < i}"
    and fill: "\<And>q. pixelHasFill (data s') (q * 4)
              \<longleftrightarrow> pixelHasFill (data s) (q * 4) \<or> (\<exists>j. ?x1 \<le> j \<and> j < i \<and> q = sy * ?w + j)"
    and stop: "\<not> (i < ?w \<and> fillable ?W ?w (data s') (visited s') i sy)"
    and cnt: "filledCount s' = nat (i - ?x1)"
    and same: "i = ?x1 \<longrightarrow> s' = s"
    by auto
  from walk_left_span [of ?W ?w "data s" "visited s" sx sy]
  have x1: "?x1 \<le> sx" and span: "\<And>j. ?x1 \<le> j \<Longrightarrow> j < sx \<Longrightarrow> fillable ?W ?w (data s) (visited s) j sy"
    by auto
  from assms(2) have sxw: "sx < ?w" by (auto dest: isBaseWhiteXY_in_bounds)
  have reach: "sx \<le> i"
  proof (rule ccontr)
    assume "\<not> sx \<le> i"
    then have lt: "i < sx" by simp
    from span [OF le lt] have f: "?W i sy" "\<not> pixelHasFill (data s) (getIndex ?w i sy)"
      by (auto simp: fillable_def)
    have "\<not> pixelHasFill (data s') ((sy * ?w + i) * 4)"
      using fill [of "sy * ?w + i"] f(2) by (auto simp: getIndex_def)
    moreover have "sy * ?w + i \<notin> visited s'" using vis by auto
    ultimately have "fillable ?W ?w (data s') (visited s') i sy"
      using f(1) by (simp add: fillable_def getIndex_def)
    with stop lt sxw show False by simp
  qed
  show "pixelHasFill (data t) ((sy * ?w + sx) * 4)"
  proof (cases "i = sx")
    case False
    with reach x1 have "?x1 \<le> sx \<and> sx < i" by simp
    then show ?thesis unfolding t using fill [of "sy * ?w + sx"] by blast
  next
    case True
    have "sy * ?w + sx \<notin> visited s'" using vis True by auto
    with stop True sxw assms(2) show ?thesis
      unfolding t by (simp add: fillable_def getIndex_def)
  qed
  show "sx > 0 \<and> ?W (sx - 1) sy \<longrightarrow> pixelHasFill (data t) ((sy * ?w + (sx - 1)) * 4)"
  proof
    assume a: "sx > 0 \<and> ?W (sx - 1) sy"
    show "pixelHasFill (data t) ((sy * ?w + (sx - 1)) * 4)"
    proof (cases "pixelHasFill (data s) ((sy * ?w + (sx - 1)) * 4)")
      case True
      then show ?thesis unfolding t using fill [of "sy * ?w + (sx - 1)"] by blast
    next
      case False
      with a assms(3) have f: "fillable ?W ?w (data s) (visited s) (sx - 1) sy"
        by (simp add: fillable_def getIndex_def)
      with a have "?x1 = walk_left ?W ?w (data s) (visited s) (sx - 1) sy"
        by (simp add: walk_left.simps [of ?W ?w "data s" "visited s" sx sy])
      with walk_left_span [of ?W ?w "data s" "visited s" "sx - 1" sy] have "?x1 \<le> sx - 1" by simp
      with reach have "?x1 \<le> sx - 1 \<and> sx - 1 < i" by simp
      then show ?thesis unfolding t using fill [of "sy * ?w + (sx - 1)"] by blast
    qed
  qed
  show "filledCount t = 0 \<longrightarrow> data t = data s"
    using cnt le same t by auto
qed

lemma fill_loop_filled_seed:
  assumes "isBaseWhiteXY b sx sy" "pixelHasFill d ((sy * width b + sx) * 4)"
    and "sx > 0 \<and> isBaseWhiteXY b (sx - 1) sy \<longrightarrow> pixelHasFill d ((sy * width b + (sx - 1)) * 4)"
  shows "fill_loop b c \<lparr>data = d, visited = {}, stack = [(sx, sy)], filledCount = 0,
                        minX = m1, minY = m2, maxX = m3, maxY = m4\<rparr>
           = \<lparr>data = d, visited = {}, stack = [], filledCount = 0,
              minX = m1, minY = m2, maxX = m3, maxY = m4\<rparr>"
proof -
  let ?W = "isBaseWhiteXY b" and ?w = "width b"
  let ?s = "\<lparr>data = d, visited = {}, stack = [], filledCount = 0,
             minX = m1, minY = m2, maxX = m3, maxY = m4\<rparr>"
  have nl: "\<not> (sx > 0 \<and> fillable ?W ?w d {} (sx - 1) sy)"
    using assms(3) by (auto simp: fillable_def getIndex_def)
  have wl: "walk_left ?W ?w d {} sx sy = sx"
    using nl by (auto simp add: walk_left.simps [of ?W ?w d "{}" sx sy])
  have "\<not> fillable ?W ?w d {} sx sy"
    using assms(2) by (simp add: fillable_def getIndex_def)
  then have pr: "paint_right ?W ?w c sy sx ?s = (sx, ?s)"
    by (simp add: paint_right.simps [of ?W ?w c sy sx ?s])
  have st: "fill_step b c ?s (sx, sy) = ?s"
    using assms(1) wl pr by (simp add: fill_step_def Let_def)
  have "fill_loop b c \<lparr>data = d, visited = {}, stack = [(sx, sy)], filledCount = 0,
                        minX = m1, minY = m2, maxX = m3, maxY = m4\<rparr>
          = fill_loop b c ?s"
    by (subst fill_loop.simps) (simp add: st)
  also have "\<dots> = ?s" by (subst fill_loop.simps) simp
  finally show ?thesis .
qed

text \<open>
  In the first script a fill from a seed makes a second fill from the same seed, on the
  overlay the first one left, a no-op: it returns \<^verbatim>\<open>false\<close> and the buffer and the
  composites are the ones passed in. This holds for every overlay the first fill starts
  from, every seed and every two colours, the first of them not transparent.
\<close>

lemma floodFillOverlay_refill_noop:
  assumes "alpha c \<noteq> 0"
  shows "floodFillOverlay b (fst (snd (floodFillOverlay b ov cs px py c))) cs' px py c'
           = (False, fst (snd (floodFillOverlay b ov cs px py c)), cs')"
proof (cases "isBaseWhiteXY b \<lfloor>px\<rfloor> \<lfloor>py\<rfloor>")
  case False
  then show ?thesis by (auto simp: floodFillOverlay_def Let_def)
next
  case True
  let ?sx = "\<lfloor>px\<rfloor>" and ?sy = "\<lfloor>py\<rfloor>" and ?w = "width b"
  from True have inb: "\<not> (?sx < 0 \<or> ?sy < 0 \<or> ?sx \<ge> ?w \<or> ?sy \<ge> height b)"
    by (auto dest: isBaseWhiteXY_in_bounds)
  let ?s0 = "\<lparr>data = ov, visited = {}, stack = [(?sx, ?sy)], filledCount = 0,
              minX = ?w, minY = height b, maxX = - 1, maxY = - 1\<rparr>"
  let ?s1 = "fill_step b c (?s0\<lparr>stack := []\<rparr>) (?sx, ?sy)"
  let ?sF = "fill_loop b c ?s0"
  let ?ov1 = "fst (snd (floodFillOverlay b ov cs px py c))"
  have sF: "?sF = fill_loop b c ?s1"
    by (subst fill_loop.simps) simp
  have ov1: "?ov1 = (if filledCount ?sF = 0 then ov else data ?sF)"
    using True inb by (simp add: floodFillOverlay_def Let_def)
  note first = first_step_fills_seed [OF assms True, of "?s0\<lparr>stack := []\<rparr>", simplified]
  note mono = fill_loop_mono [OF assms, of ?s1 _ b, folded sF]
  have A: "pixelHasFill ?ov1 ((?sy * ?w + ?sx) * 4)"
    and B: "?sx > 0 \<and> isBaseWhiteXY b (?sx - 1) ?sy
              \<longrightarrow> pixelHasFill ?ov1 ((?sy * ?w + (?sx - 1)) * 4)"
  proof -
    show "pixelHasFill ?ov1 ((?sy * ?w + ?sx) * 4)"
    proof (cases "filledCount ?sF = 0")
      case False
      with ov1 first(1) mono [of "?sy * ?w + ?sx"] show ?thesis by simp
    next
      case True
      with mono [of 0] have "filledCount ?s1 = 0" by simp
      with first(1,3) True ov1 show ?thesis by simp
    qed
    show "?sx > 0 \<and> isBaseWhiteXY b (?sx - 1) ?sy
              \<longrightarrow> pixelHasFill ?ov1 ((?sy * ?w + (?sx - 1)) * 4)"
    proof (cases "filledCount ?sF = 0")
      case False
      with ov1 first(2) mono [of "?sy * ?w + (?sx - 1)"] show ?thesis by simp
    next
      case True
      with mono [of 0] have "filledCount ?s1 = 0" by simp
      with first(2,3) True ov1 show ?thesis by simp
    qed
  qed
  have "fill_loop b c' \<lparr>data = ?ov1, visited = {}, stack = [(?sx, ?sy)], filledCount = 0,
                        minX = ?w, minY = height b, maxX = - 1, maxY = - 1\<rparr>
           = \<lparr>data = ?ov1, visited = {}, stack = [], filledCount = 0,
              minX = ?w, minY = height b, maxX = - 1, maxY = - 1\<rparr>"
    using True A B by (rule fill_loop_filled_seed)
  then show ?thesis
    using True inb by (simp add: floodFillOverlay_def [of b ?ov1] Let_def)
qed

subsection \<open>Client state\<close>

text \<open>A pending claim \<^verbatim>\<open>{ imgX, imgY, date, team, color }\<close>.\<close>

record pending_claim =
  imgX :: int
  imgY :: int
  date :: string
  team :: "string option"
  color :: "string option"

text \<open>
  A row of the \<^verbatim>\<open>claims\<close> table as \<^verbatim>\<open>GET /claims\<close> returns it. The columns
  \<^verbatim>\<open>x\<close> and \<^verbatim>\<open>y\<close> are \<^verbatim>\<open>REAL\<close>.
\<close>

record saved_claim =
  claim_id :: int
  claim_x :: real
  claim_y :: real
  claim_date :: string
  claim_team :: "string option"
  claim_color :: "string option"
  claim_user_id :: "int option"

text \<open>
  The mutable state of a front-end: \<^verbatim>\<open>pendingClaims\<close>, \<^verbatim>\<open>debugSeeds\<close>,
  \<^verbatim>\<open>overlayComposites\<close>, the pixel buffers of the canvases \<^verbatim>\<open>tempOverlay\<close> and
  \<^verbatim>\<open>savedOverlay\<close>, and (first script only) \<^verbatim>\<open>renderedClaimIds\<close> and
  \<^verbatim>\<open>lastClaimCount\<close>.
\<close>

record client =
  pendingClaims :: "pending_claim list"
  debugSeeds :: "point list"
  overlayComposites :: "composite list"
  tempOverlay :: "byte list"
  savedOverlay :: "byte list"
  renderedClaimIds :: "int set"
  lastClaimCount :: int

text \<open>
  What a call reads from its surroundings: \<^verbatim>\<open>selectedTeam\<close>, the colour
  \<^verbatim>\<open>settings.Teams[name].color\<close> of a team (\<open>None\<close> when the lookup is falsy) and the
  string \<^verbatim>\<open>new Date().toISOString()\<close>.
\<close>

record ui =
  selectedTeam :: "string option"
  teamColor :: "string \<Rightarrow> string option"
  now :: string

text \<open>\<^verbatim>\<open>Math.round\<close>: to the nearest integer, halves up.\<close>

definition js_round :: "real \<Rightarrow> int" where
  "js_round v = \<lfloor>v + 1 / 2\<rfloor>"

text \<open>\<^verbatim>\<open>v || d\<close> on a string that may be missing: the empty string is falsy.\<close>

definition js_or :: "string option \<Rightarrow> string \<Rightarrow> string" where
  "js_or v d = (case v of None \<Rightarrow> d | Some s \<Rightarrow> if s = [] then d else s)"

text \<open>
  \<^verbatim>\<open>hexToRgba(hex, alpha)\<close>. The built-in \<^verbatim>\<open>parseInt(_, 16)\<close> is the parameter
  \<open>parseHex\<close>, giving the integer that the bit operators see (0 for \<^verbatim>\<open>NaN\<close>).
\<close>

definition hexToRgba :: "(string \<Rightarrow> int) \<Rightarrow> string option \<Rightarrow> byte \<Rightarrow> rgba" where
  "hexToRgba parseHex hex a =
     (case hex of
        None \<Rightarrow> \<lparr>red = 0, green = 0, blue = 0, alpha = a\<rparr>
      | Some s \<Rightarrow>
          if s = [] then \<lparr>red = 0, green = 0, blue = 0, alpha = a\<rparr>
          else let m = remove1 (CHR ''#'') s;
                   bigint = parseHex (if length m = 3 then concat (map (\<lambda>c. [c, c]) m) else m)
               in \<lparr>red = word_of_int ((bigint div 65536) mod 256),
                   green = word_of_int ((bigint div 256) mod 256),
                   blue = word_of_int (bigint mod 256),
                   alpha = a\<rparr>)"

subsection \<open>Adding a pending claim\<close>

text \<open>First script: \<^verbatim>\<open>'__EMPTY__'\<close> is the choice "Remove Claim".\<close>

definition getSelectedTeamColor :: "ui \<Rightarrow> string option" where
  "getSelectedTeamColor u =
     (if selectedTeam u = Some ''__EMPTY__'' then Some ''#ffffff''
      else case selectedTeam u of None \<Rightarrow> None | Some t \<Rightarrow> teamColor u t)"

definition getSelectedTeamColor_v2 :: "ui \<Rightarrow> string option" where
  "getSelectedTeamColor_v2 u = (case selectedTeam u of None \<Rightarrow> None | Some t \<Rightarrow> teamColor u t)"

text \<open>\<^verbatim>\<open>selectedTeam || null\<close>\<close>

definition team_or_null :: "string option \<Rightarrow> string option" where
  "team_or_null t = (if t = Some [] then None else t)"

text \<open>
  \<^verbatim>\<open>addPendingClaim\<close> of the first script. The claim is pushed before any fill is
  tried; \<^verbatim>\<open>ok\<close> is not read afterwards. \<^verbatim>\<open>updatePendingCount\<close> and \<^verbatim>\<open>draw\<close> only
  write to the page.
\<close>

definition addPendingClaim :: "(string \<Rightarrow> int) \<Rightarrow> raster \<Rightarrow> ui \<Rightarrow> client \<Rightarrow> real \<Rightarrow> real \<Rightarrow> client" where
  "addPendingClaim parseHex b u st px py =
     (let claim = \<lparr>imgX = js_round px, imgY = js_round py, date = now u,
                   team = team_or_null (selectedTeam u), color = getSelectedTeamColor u\<rparr>;
          st1 = st\<lparr>pendingClaims := pendingClaims st @ [claim]\<rparr>;
          fillColor = hexToRgba parseHex (Some (js_or (color claim) ''#cccccc'')) 128
      in case floodFillOverlay b (tempOverlay st1) (overlayComposites st1)
                (real_of_int (imgX claim)) (real_of_int (imgY claim)) fillColor of
           (ok, d1, cs1) \<Rightarrow>
             if \<not> ok then
               (case findNearestWhitePixel b (imgX claim) (imgY claim) 20 of
                  None \<Rightarrow> st1\<lparr>tempOverlay := d1, overlayComposites := cs1\<rparr>
                | Some found \<Rightarrow>
                    (case floodFillOverlay b d1 cs1 (real_of_int (fst found)) (real_of_int (snd found)) fillColor of
                       (ok2, d2, cs2) \<Rightarrow> st1\<lparr>tempOverlay := d2, overlayComposites := cs2\<rparr>))
             else st1\<lparr>tempOverlay := d1, overlayComposites := cs1\<rparr>)"

text \<open>\<^verbatim>\<open>addPendingClaim\<close> of the second script: the temporary fill is always grey.\<close>

definition addPendingClaim_v2 :: "(string \<Rightarrow> int) \<Rightarrow> raster \<Rightarrow> ui \<Rightarrow> client \<Rightarrow> real \<Rightarrow> real \<Rightarrow> client" where
  "addPendingClaim_v2 parseHex b u st px py =
     (let claim = \<lparr>imgX = js_round px, imgY = js_round py, date = now u,
                   team = team_or_null (selectedTeam u), color = getSelectedTeamColor_v2 u\<rparr>;
          st1 = st\<lparr>pendingClaims := pendingClaims st @ [claim]\<rparr>;
          gray = hexToRgba parseHex (Some ''#cccccc'') 200
      in case floodFillOverlay_v2 b (tempOverlay st1) (overlayComposites st1)
                (real_of_int (imgX claim)) (real_of_int (imgY claim)) gray of
           (ok, d1, cs1) \<Rightarrow>
             if \<not> ok then
               (case findNearestWhitePixel_v2 b (imgX claim) (imgY claim) 20 of
                  None \<Rightarrow> st1\<lparr>tempOverlay := d1, overlayComposites := cs1\<rparr>
                | Some found \<Rightarrow>
                    (case floodFillOverlay_v2 b d1 cs1 (real_of_int (fst found)) (real_of_int (snd found)) gray of
                       (ok2, d2, cs2) \<Rightarrow> st1\<lparr>tempOverlay := d2, overlayComposites := cs2\<rparr>))
             else st1\<lparr>tempOverlay := d1, overlayComposites := cs1\<rparr>)"

text \<open>\<^verbatim>\<open>claimRegion\<close>, the click handler's entry: it tests the floored click point.\<close>

definition claimRegion :: "(string \<Rightarrow> int) \<Rightarrow> raster \<Rightarrow> ui \<Rightarrow> client \<Rightarrow> real \<Rightarrow> real \<Rightarrow> client" where
  "claimRegion parseHex b u st px py =
     (if isBaseWhiteXY b \<lfloor>px\<rfloor> \<lfloor>py\<rfloor> then addPendingClaim parseHex b u st px py else st)"

definition claimRegion_v2 :: "(string \<Rightarrow> int) \<Rightarrow> raster \<Rightarrow> ui \<Rightarrow> client \<Rightarrow> real \<Rightarrow> real \<Rightarrow> client" where
  "claimRegion_v2 parseHex b u st px py =
     (if \<not> isBaseWhiteXY_v2 b \<lfloor>px\<rfloor> \<lfloor>py\<rfloor> then st else addPendingClaim_v2 parseHex b u st px py)"

text \<open>The fill of an attempt and of its retry, as \<^verbatim>\<open>addPendingClaim\<close> runs them.\<close>

definition both_fills_fail :: "raster \<Rightarrow> byte list \<Rightarrow> composite list \<Rightarrow> rgba \<Rightarrow> int \<Rightarrow> int \<Rightarrow> bool" where
  "both_fills_fail b d cs c sx sy =
     (\<not> fst (floodFillOverlay b d cs (real_of_int sx) (real_of_int sy) c) \<and>
      (case findNearestWhitePixel b sx sy 20 of
         None \<Rightarrow> True
       | Some found \<Rightarrow> \<not> fst (floodFillOverlay b d cs (real_of_int (fst found)) (real_of_int (snd found)) c)))"

definition both_fills_fail_v2 :: "raster \<Rightarrow> byte list \<Rightarrow> composite list \<Rightarrow> rgba \<Rightarrow> int \<Rightarrow> int \<Rightarrow> bool" where
  "both_fills_fail_v2 b d cs c sx sy =
     (\<not> fst (floodFillOverlay_v2 b d cs (real_of_int sx) (real_of_int sy) c) \<and>
      (case findNearestWhitePixel_v2 b sx sy 20 of
         None \<Rightarrow> True
       | Some found \<Rightarrow> \<not> fst (floodFillOverlay_v2 b d cs (real_of_int (fst found)) (real_of_int (snd found)) c)))"

lemma floodFillOverlay_failed:
  "\<not> fst (floodFillOverlay b d cs px py c) \<Longrightarrow> floodFillOverlay b d cs px py c = (False, d, cs)"
  by (auto simp: floodFillOverlay_def Let_def split: if_splits)

lemma floodFillOverlay_v2_failed:
  "\<not> fst (floodFillOverlay_v2 b d cs px py c) \<Longrightarrow> floodFillOverlay_v2 b d cs px py c = (False, d, cs)"
  by (auto simp: floodFillOverlay_v2_def Let_def split: if_splits)

text \<open>
  C1 (as amended). In either script \<^verbatim>\<open>addPendingClaim\<close> appends exactly one claim, at
  the rounded click point, on every call; when the fill fails at the rounded point and
  at the recovered point (or recovery returns \<^verbatim>\<open>null\<close>) that claim is still
  recorded and the pending overlay and the composites stay as they were. A click leaves
  the state as it was only in \<^verbatim>\<open>claimRegion\<close>, when the pixel at the floored click
  point is not claimable.
\<close>

theorem addPendingClaim_always_records:
  "pendingClaims (addPendingClaim parseHex b u st px py)
     = pendingClaims st @ [\<lparr>imgX = js_round px, imgY = js_round py, date = now u,
          team = team_or_null (selectedTeam u), color = getSelectedTeamColor u\<rparr>]
   \<and> (both_fills_fail b (tempOverlay st) (overlayComposites st)
         (hexToRgba parseHex (Some (js_or (getSelectedTeamColor u) ''#cccccc'')) 128)
         (js_round px) (js_round py)
       \<longrightarrow> tempOverlay (addPendingClaim parseHex b u st px py) = tempOverlay st
         \<and> overlayComposites (addPendingClaim parseHex b u st px py) = overlayComposites st)
   \<and> (\<not> isBaseWhiteXY b \<lfloor>px\<rfloor> \<lfloor>py\<rfloor> \<longrightarrow> claimRegion parseHex b u st px py = st)
   \<and> pendingClaims (addPendingClaim_v2 parseHex b u st px py)
     = pendingClaims st @ [\<lparr>imgX = js_round px, imgY = js_round py, date = now u,
          team = team_or_null (selectedTeam u), color = getSelectedTeamColor_v2 u\<rparr>]
   \<and> (both_fills_fail_v2 b (tempOverlay st) (overlayComposites st)
         (hexToRgba parseHex (Some ''#cccccc'') 200) (js_round px) (js_round py)
       \<longrightarrow> tempOverlay (addPendingClaim_v2 parseHex b u st px py) = tempOverlay st
         \<and> overlayComposites (addPendingClaim_v2 parseHex b u st px py) = overlayComposites st)
   \<and> (\<not> isBaseWhiteXY_v2 b \<lfloor>px\<rfloor> \<lfloor>py\<rfloor> \<longrightarrow> claimRegion_v2 parseHex b u st px py = st)"
proof -
  have 1: "pendingClaims (addPendingClaim parseHex b u st px py)
     = pendingClaims st @ [\<lparr>imgX = js_round px, imgY = js_round py, date = now u,
          team = team_or_null (selectedTeam u), color = getSelectedTeamColor u\<rparr>]"
    by (simp add: addPendingClaim_def Let_def split: prod.splits option.splits)
  have 2: "pendingClaims (addPendingClaim_v2 parseHex b u st px py)
     = pendingClaims st @ [\<lparr>imgX = js_round px, imgY = js_round py, date = now u,
          team = team_or_null (selectedTeam u), color = getSelectedTeamColor_v2 u\<rparr>]"
    by (simp add: addPendingClaim_v2_def Let_def split: prod.splits option.splits)
  have 3: "tempOverlay (addPendingClaim parseHex b u st px py) = tempOverlay st
         \<and> overlayComposites (addPendingClaim parseHex b u st px py) = overlayComposites st"
    if "both_fills_fail b (tempOverlay st) (overlayComposites st)
         (hexToRgba parseHex (Some (js_or (getSelectedTeamColor u) ''#cccccc'')) 128)
         (js_round px) (js_round py)"
    using that
    by (auto simp: both_fills_fail_def addPendingClaim_def Let_def
        dest!: floodFillOverlay_failed split: option.splits)
  have 4: "tempOverlay (addPendingClaim_v2 parseHex b u st px py) = tempOverlay st
         \<and> overlayComposites (addPendingClaim_v2 parseHex b u st px py) = overlayComposites st"
    if "both_fills_fail_v2 b (tempOverlay st) (overlayComposites st)
         (hexToRgba parseHex (Some ''#cccccc'') 200) (js_round px) (js_round py)"
    using that
    by (auto simp: both_fills_fail_v2_def addPendingClaim_v2_def Let_def
        dest!: floodFillOverlay_v2_failed split: option.splits)
  show ?thesis
    using 1 2 3 4 by (simp add: claimRegion_def claimRegion_v2_def)
qed


text \<open>The value of a string of hexadecimal digits, as the colour strings of the settings are.\<close>

definition hexDigit :: "char \<Rightarrow> int" where
  "hexDigit ch =
     (let n = int (of_char ch :: nat)
      in if 48 \<le> n \<and> n \<le> 57 then n - 48
         else if 97 \<le> n \<and> n \<le> 102 then n - 87
         else if 65 \<le> n \<and> n \<le> 70 then n - 55
         else 0)"

definition hexDigits :: "string \<Rightarrow> int" where
  "hexDigits s = foldl (\<lambda>acc ch. acc * 16 + hexDigit ch) 0 s"

definition no_team :: ui where
  "no_team = \<lparr>selectedTeam = None, teamColor = (\<lambda>t. None), now = ''2024-05-01T10:00:00.000Z''\<rparr>"

definition filled_row_client :: client where
  "filled_row_client =
     \<lparr>pendingClaims = [\<lparr>imgX = 0, imgY = 0, date = ''2024-05-01T09:59:00.000Z'', team = None, color = None\<rparr>],
      debugSeeds = [],
      overlayComposites = [\<lparr>regionW = 2, regionH = 1, cminX = 0, cminY = 0, cmaxX = 1, cmaxY = 0\<rparr>],
      tempOverlay = [204, 204, 204, 128, 204, 204, 204, 128],
      savedOverlay = [0, 0, 0, 0, 0, 0, 0, 0],
      renderedClaimIds = {}, lastClaimCount = 0\<rparr>"

definition empty_row_client :: client where
  "empty_row_client =
     \<lparr>pendingClaims = [], debugSeeds = [], overlayComposites = [],
      tempOverlay = [0, 0, 0, 0, 0, 0, 0, 0],
      savedOverlay = [0, 0, 0, 0, 0, 0, 0, 0],
      renderedClaimIds = {}, lastClaimCount = 0\<rparr>"

definition grey128 :: rgba where
  "grey128 = \<lparr>red = 204, green = 204, blue = 204, alpha = 128\<rparr>"

lemma hexToRgba_grey:
  "hexToRgba hexDigits (Some (js_or (getSelectedTeamColor no_team) ''#cccccc'')) 128 = grey128"
  by code_simp

lemma filled_row_both_fail:
  "both_fills_fail white_row (tempOverlay filled_row_client) (overlayComposites filled_row_client)
     grey128 0 0"
  by code_simp

text \<open>
  The state \<open>filled_row_client\<close> is the state after a first click at \<open>(0, 0)\<close>.
\<close>

lemma filled_row_client_reached:
  "claimRegion hexDigits white_row (no_team\<lparr>now := ''2024-05-01T09:59:00.000Z''\<rparr>)
      empty_row_client 0 0 = filled_row_client"
  by code_simp

lemma js_round_0: "js_round 0 = 0"
  by (simp add: js_round_def)

theorem addPendingClaim_always_records_witness:
  "both_fills_fail white_row (tempOverlay filled_row_client) (overlayComposites filled_row_client)
     (hexToRgba hexDigits (Some (js_or (getSelectedTeamColor no_team) ''#cccccc'')) 128)
     (js_round 0) (js_round 0)
   \<and> tempOverlay (addPendingClaim hexDigits white_row no_team filled_row_client 0 0)
       = tempOverlay filled_row_client
   \<and> length (pendingClaims (addPendingClaim hexDigits white_row no_team filled_row_client 0 0)) = 2
   \<and> \<not> isBaseWhiteXY two_pixel_row \<lfloor>0\<rfloor> \<lfloor>0\<rfloor>
   \<and> claimRegion hexDigits two_pixel_row no_team filled_row_client 0 0 = filled_row_client"
proof -
  have f: "both_fills_fail white_row (tempOverlay filled_row_client) (overlayComposites filled_row_client)
     (hexToRgba hexDigits (Some (js_or (getSelectedTeamColor no_team) ''#cccccc'')) 128)
     (js_round 0) (js_round 0)"
    using filled_row_both_fail by (simp only: hexToRgba_grey js_round_0)
  have w: "\<not> isBaseWhiteXY two_pixel_row \<lfloor>0::real\<rfloor> \<lfloor>0::real\<rfloor>"
    by (simp add: two_pixel_row_def isBaseWhiteXY_def byte_at_def)
  have l: "length (pendingClaims filled_row_client) = 1"
    by (simp add: filled_row_client_def)
  from addPendingClaim_always_records [of hexDigits white_row no_team filled_row_client 0 0]
       addPendingClaim_always_records [of hexDigits two_pixel_row no_team filled_row_client 0 0]
       f w l
  show ?thesis by simp
qed

text \<open>
  The claim as stated fails: on a raster of two white pixels whose pending overlay is
  already filled, a click at \<open>(0, 0)\<close> fails to fill at the click point and at the
  recovered point (the click point itself), and the pending list grows all the same.
\<close>

theorem addPendingClaim_failed_fill_counterexample:
  "both_fills_fail white_row (tempOverlay filled_row_client) (overlayComposites filled_row_client)
     (hexToRgba hexDigits (Some (js_or (getSelectedTeamColor no_team) ''#cccccc'')) 128)
     (js_round 0) (js_round 0)
   \<and> pendingClaims (addPendingClaim hexDigits white_row no_team filled_row_client 0 0)
       \<noteq> pendingClaims filled_row_client
   \<and> claimRegion hexDigits white_row no_team filled_row_client 0 0
       = addPendingClaim hexDigits white_row no_team filled_row_client 0 0"
proof -
  have f: "both_fills_fail white_row (tempOverlay filled_row_client) (overlayComposites filled_row_client)
     (hexToRgba hexDigits (Some (js_or (getSelectedTeamColor no_team) ''#cccccc'')) 128)
     (js_round 0) (js_round 0)"
    using filled_row_both_fail by (simp only: hexToRgba_grey js_round_0)
  have w: "isBaseWhiteXY white_row \<lfloor>0::real\<rfloor> \<lfloor>0::real\<rfloor>"
    by (simp add: white_row_def isBaseWhiteXY_def byte_at_def)
  have "length (pendingClaims (addPendingClaim hexDigits white_row no_team filled_row_client 0 0))
          = Suc (length (pendingClaims filled_row_client))"
    by (simp add: addPendingClaim_def Let_def split: prod.splits option.splits)
  then have "pendingClaims (addPendingClaim hexDigits white_row no_team filled_row_client 0 0)
          \<noteq> pendingClaims filled_row_client"
    by auto
  with f w show ?thesis by (simp add: claimRegion_def)
qed

subsection \<open>Rebuilding the saved overlay\<close>

text \<open>\<^verbatim>\<open>ctx.clearRect(0, 0, width, height)\<close> on an overlay: every byte becomes 0.\<close>

definition clearRect :: "byte list \<Rightarrow> byte list" where
  "clearRect d = replicate (length d) 0"

text \<open>
  The body of \<^verbatim>\<open>claims.forEach\<close> in \<^verbatim>\<open>reloadSavedClaims\<close> of the first script: fill at
  the rounded seed, retry at the nearest claimable pixel within 80, and remember the
  id when a fill succeeded.
\<close>

definition renderSavedClaim :: "(string \<Rightarrow> int) \<Rightarrow> raster \<Rightarrow> client \<Rightarrow> saved_claim \<Rightarrow> client" where
  "renderSavedClaim parseHex b st c =
     (let fillColor = hexToRgba parseHex (Some (js_or (claim_color c) ''#000000'')) 255;
          seedX = js_round (claim_x c); seedY = js_round (claim_y c)
      in case floodFillOverlay b (savedOverlay st) (overlayComposites st)
                (real_of_int seedX) (real_of_int seedY) fillColor of
           (ok, d1, cs1) \<Rightarrow>
             if ok then st\<lparr>savedOverlay := d1, overlayComposites := cs1,
                           renderedClaimIds := insert (claim_id c) (renderedClaimIds st)\<rparr>
             else
               (case findNearestWhitePixel b seedX seedY 80 of
                  None \<Rightarrow> st\<lparr>savedOverlay := d1, overlayComposites := cs1\<rparr>
                | Some found \<Rightarrow>
                    (case floodFillOverlay b d1 cs1 (real_of_int (fst found)) (real_of_int (snd found)) fillColor of
                       (ok2, d2, cs2) \<Rightarrow>
                         if ok2 then st\<lparr>savedOverlay := d2, overlayComposites := cs2,
                                        renderedClaimIds := insert (claim_id c) (renderedClaimIds st)\<rparr>
                         else st\<lparr>savedOverlay := d2, overlayComposites := cs2\<rparr>)))"

text \<open>
  The change test of \<^verbatim>\<open>reloadSavedClaims\<close>: \<^verbatim>\<open>currentIds\<close> is the set of the fetched
  ids, here the list of the distinct ids.
\<close>

definition idsChanged :: "saved_claim list \<Rightarrow> int set \<Rightarrow> bool" where
  "idsChanged claims rendered =
     (let currentIds = remdups (map claim_id claims)
      in length currentIds \<noteq> card rendered \<or> \<not> list_all (\<lambda>i. i \<in> rendered) currentIds)"

text \<open>
  \<^verbatim>\<open>reloadSavedClaims\<close> of the first script. The argument \<open>resp\<close> is the answer to
  \<^verbatim>\<open>GET /claims\<close>: \<open>None\<close> when the request fails or is not ok (the exception is
  caught and logged). The second component of the result tells whether the saved
  overlay was cleared and repainted.
\<close>

definition reloadSavedClaims ::
  "(string \<Rightarrow> int) \<Rightarrow> raster \<Rightarrow> saved_claim list option \<Rightarrow> client \<Rightarrow> client \<times> bool" where
  "reloadSavedClaims parseHex b resp st =
     (case resp of
        None \<Rightarrow> (st, False)
      | Some claims \<Rightarrow>
          let st1 = st\<lparr>lastClaimCount := int (length claims)\<rparr>
          in if idsChanged claims (renderedClaimIds st1)
             then (foldl (renderSavedClaim parseHex b)
                     (st1\<lparr>savedOverlay := clearRect (savedOverlay st1), overlayComposites := [],
                          debugSeeds := [], renderedClaimIds := {}\<rparr>) claims, True)
             else (st1, False))"

text \<open>
  The \<^verbatim>\<open>setInterval\<close> callback of the first script: \<open>resp\<close> answers its own
  \<^verbatim>\<open>GET /claims\<close>, \<open>resp'\<close> the one that \<^verbatim>\<open>reloadSavedClaims\<close> sends.
\<close>

definition pollClaims ::
  "(string \<Rightarrow> int) \<Rightarrow> raster \<Rightarrow> saved_claim list option \<Rightarrow> saved_claim list option \<Rightarrow> client
     \<Rightarrow> client \<times> bool" where
  "pollClaims parseHex b resp resp' st =
     (case resp of
        None \<Rightarrow> (st, False)
      | Some claims \<Rightarrow>
          if int (length claims) \<noteq> lastClaimCount st
          then reloadSavedClaims parseHex b resp' (st\<lparr>lastClaimCount := int (length claims)\<rparr>)
          else (st, False))"

text \<open>
  \<^verbatim>\<open>resetPendingClaims\<close> of the first script; it starts a reload, answered by \<open>resp\<close>.
\<close>

definition resetPendingClaims ::
  "(string \<Rightarrow> int) \<Rightarrow> raster \<Rightarrow> saved_claim list option \<Rightarrow> client \<Rightarrow> client" where
  "resetPendingClaims parseHex b resp st =
     fst (reloadSavedClaims parseHex b resp
            (st\<lparr>pendingClaims := [], tempOverlay := clearRect (tempOverlay st),
                overlayComposites := [], renderedClaimIds := {}\<rparr>))"

text \<open>Second script: every reload repaints; a recovered seed is kept in \<^verbatim>\<open>debugSeeds\<close>.\<close>

definition renderSavedClaim_v2 :: "(string \<Rightarrow> int) \<Rightarrow> raster \<Rightarrow> client \<Rightarrow> saved_claim \<Rightarrow> client" where
  "renderSavedClaim_v2 parseHex b st c =
     (let fillColor = hexToRgba parseHex (Some (js_or (claim_color c) ''#000000'')) 255;
          seedX = js_round (claim_x c); seedY = js_round (claim_y c)
      in case floodFillOverlay_v2 b (savedOverlay st) (overlayComposites st)
                (real_of_int seedX) (real_of_int seedY) fillColor of
           (ok, d1, cs1) \<Rightarrow>
             if ok then st\<lparr>savedOverlay := d1, overlayComposites := cs1\<rparr>
             else
               (case findNearestWhitePixel_v2 b seedX seedY 80 of
                  None \<Rightarrow> st\<lparr>savedOverlay := d1, overlayComposites := cs1\<rparr>
                | Some found \<Rightarrow>
                    (let seeds = debugSeeds st @ [found];
                         seeds' = (if length seeds > 100 then tl seeds else seeds)
                     in case floodFillOverlay_v2 b d1 cs1 (real_of_int (fst found)) (real_of_int (snd found)) fillColor of
                          (ok2, d2, cs2) \<Rightarrow>
                            st\<lparr>savedOverlay := d2, overlayComposites := cs2, debugSeeds := seeds'\<rparr>)))"

definition reloadSavedClaims_v2 ::
  "(string \<Rightarrow> int) \<Rightarrow> raster \<Rightarrow> saved_claim list option \<Rightarrow> client \<Rightarrow> client" where
  "reloadSavedClaims_v2 parseHex b resp st =
     (case resp of
        None \<Rightarrow> st
      | Some claims \<Rightarrow>
          foldl (renderSavedClaim_v2 parseHex b)
            (st\<lparr>savedOverlay := clearRect (savedOverlay st), overlayComposites := [],
                debugSeeds := []\<rparr>) claims)"

definition resetPendingClaims_v2 :: "client \<Rightarrow> client" where
  "resetPendingClaims_v2 st =
     st\<lparr>pendingClaims := [], tempOverlay := clearRect (tempOverlay st), overlayComposites := []\<rparr>"

subsection \<open>Confirming the pending claims\<close>

text \<open>
  The requests that change the store: \<^verbatim>\<open>POST /claims/delete\<close> with its ids and
  \<^verbatim>\<open>POST /claims\<close> with its claims.
\<close>

datatype request = DeleteClaims "int list" | InsertClaims "pending_claim list"

text \<open>
  The answers of the store during one confirm: the list fetched first (\<open>None\<close> when
  the request throws or is not ok), whether \<^verbatim>\<open>POST /claims\<close> is ok, whether its
  body parses (read by the second script only), and the answers to the reloads. The
  answer to \<^verbatim>\<open>POST /claims/delete\<close> is only logged.
\<close>

record responses =
  existingResp :: "saved_claim list option"
  insertOk :: bool
  insertBodyOk :: bool
  reloadResp1 :: "saved_claim list option"
  reloadResp2 :: "saved_claim list option"

text \<open>
  The loop that collects \<^verbatim>\<open>idsToDelete\<close>: a JavaScript \<^verbatim>\<open>Set\<close>, here the list of its
  members in insertion order. \<^verbatim>\<open>tempCtx.getImageData(sx, sy, 1, 1).data[3]\<close> is the alpha
  byte of the pending overlay at \<open>(sx, sy)\<close>.
\<close>

definition seedCovered :: "raster \<Rightarrow> byte list \<Rightarrow> saved_claim \<Rightarrow> bool" where
  "seedCovered b temp c =
     (let sx = js_round (claim_x c); sy = js_round (claim_y c)
      in if sx < 0 \<or> sy < 0 \<or> sx \<ge> width b \<or> sy \<ge> height b then False
         else js_gt (byte_at temp (getIndex (width b) sx sy + 3)) 0)"

definition set_add :: "int list \<Rightarrow> int \<Rightarrow> int list" where
  "set_add ids i = (if i \<in> set ids then ids else ids @ [i])"

definition idsToDelete :: "raster \<Rightarrow> byte list \<Rightarrow> saved_claim list \<Rightarrow> int list" where
  "idsToDelete b temp existing =
     foldl (\<lambda>ids c. if seedCovered b temp c then set_add ids (claim_id c) else ids) [] existing"

text \<open>
  \<^verbatim>\<open>confirmPendingClaims\<close> of the first script. The result is the new state, the
  requests sent in order, and whether the error alert was shown.
\<close>

definition confirmPendingClaims ::
  "(string \<Rightarrow> int) \<Rightarrow> raster \<Rightarrow> responses \<Rightarrow> client \<Rightarrow> client \<times> request list \<times> bool" where
  "confirmPendingClaims parseHex b net st =
     (if pendingClaims st = [] then (st, [], False)
      else let existing = (case existingResp net of None \<Rightarrow> [] | Some cs \<Rightarrow> cs);
               ids = idsToDelete b (tempOverlay st) existing;
               sent = (if ids \<noteq> [] then [DeleteClaims ids] else []);
               nonEmptyClaims = filter (\<lambda>c. team c \<noteq> Some ''__EMPTY__'') (pendingClaims st)
           in if nonEmptyClaims \<noteq> [] \<and> \<not> insertOk net
              then (st, sent @ [InsertClaims nonEmptyClaims], True)
              else let sent' = (if nonEmptyClaims \<noteq> [] then sent @ [InsertClaims nonEmptyClaims] else sent);
                       st1 = resetPendingClaims parseHex b (reloadResp1 net) st
                   in (fst (reloadSavedClaims parseHex b (reloadResp2 net) st1), sent', False))"

text \<open>
  \<^verbatim>\<open>confirmPendingClaims\<close> of the second script: all pending claims are posted and the
  body of the answer is parsed before the reset.
\<close>

definition confirmPendingClaims_v2 ::
  "(string \<Rightarrow> int) \<Rightarrow> raster \<Rightarrow> responses \<Rightarrow> client \<Rightarrow> client \<times> request list \<times> bool" where
  "confirmPendingClaims_v2 parseHex b net st =
     (if pendingClaims st = [] then (st, [], False)
      else let existing = (case existingResp net of None \<Rightarrow> [] | Some cs \<Rightarrow> cs);
               ids = idsToDelete b (tempOverlay st) existing;
               sent = (if ids \<noteq> [] then [DeleteClaims ids] else []) @ [InsertClaims (pendingClaims st)]
           in if \<not> insertOk net then (st, sent, True)
              else if \<not> insertBodyOk net then (st, sent, True)
              else (reloadSavedClaims_v2 parseHex b (reloadResp1 net) (resetPendingClaims_v2 st),
                    sent, False))"

text \<open>The ids that the requests of a confirm ask the store to delete.\<close>

fun deletedIds :: "request list \<Rightarrow> int list" where
  "deletedIds [] = []"
| "deletedIds (DeleteClaims ids # rs) = ids @ deletedIds rs"
| "deletedIds (InsertClaims cs # rs) = deletedIds rs"


lemma idsToDelete_foldl_set:
  "set (foldl (\<lambda>ids c. if seedCovered b temp c then set_add ids (claim_id c) else ids) acc cs)
     = set acc \<union> claim_id ` {c \<in> set cs. seedCovered b temp c}"
  by (induction cs arbitrary: acc) (auto simp: set_add_def)

lemma idsToDelete_set:
  "set (idsToDelete b temp existing) = claim_id ` {c \<in> set existing. seedCovered b temp c}"
  by (simp add: idsToDelete_def idsToDelete_foldl_set)

lemma confirm_deletedIds:
  "pendingClaims st \<noteq> [] \<Longrightarrow>
   deletedIds (fst (snd (confirmPendingClaims parseHex b net st)))
     = idsToDelete b (tempOverlay st) (case existingResp net of None \<Rightarrow> [] | Some cs \<Rightarrow> cs)"
  by (simp add: confirmPendingClaims_def Let_def)

lemma confirm_v2_deletedIds:
  "pendingClaims st \<noteq> [] \<Longrightarrow>
   deletedIds (fst (snd (confirmPendingClaims_v2 parseHex b net st)))
     = idsToDelete b (tempOverlay st) (case existingResp net of None \<Rightarrow> [] | Some cs \<Rightarrow> cs)"
  by (simp add: confirmPendingClaims_v2_def Let_def)

lemma distinct_ids_member:
  assumes "distinct (map claim_id existing)" "c \<in> set existing"
  shows "claim_id c \<in> claim_id ` {c' \<in> set existing. P c'} \<longleftrightarrow> P c"
proof
  assume "claim_id c \<in> claim_id ` {c' \<in> set existing. P c'}"
  then obtain c' where c': "c' \<in> set existing" "P c'" "claim_id c' = claim_id c" by auto
  from assms(1) have "inj_on claim_id (set existing)" by (simp add: distinct_map)
  with c' assms(2) have "c' = c" by (auto dest: inj_onD)
  with c' show "P c" by simp
next
  assume "P c"
  with assms(2) show "claim_id c \<in> claim_id ` {c' \<in> set existing. P c'}" by auto
qed

text \<open>
  C6. Let a confirm with pending claims fetch the list \<open>existing\<close>, whose ids are
  distinct (\<^verbatim>\<open>id\<close> is the primary key). In either script, the id of a fetched claim
  \<open>c\<close> is among the ids the confirm asks the store to delete iff the rounded seed of
  \<open>c\<close> lies inside the pending overlay and the alpha byte there is not 0. So a claim
  whose seed is not covered is in no delete request.
\<close>

theorem confirm_deletes_covered_seeds:
  assumes "pendingClaims st \<noteq> []" "existingResp net = Some existing"
    and "distinct (map claim_id existing)" "c \<in> set existing"
  shows "(claim_id c \<in> set (deletedIds (fst (snd (confirmPendingClaims parseHex b net st))))
            \<longleftrightarrow> seedCovered b (tempOverlay st) c)
       \<and> (claim_id c \<in> set (deletedIds (fst (snd (confirmPendingClaims_v2 parseHex b net st))))
            \<longleftrightarrow> seedCovered b (tempOverlay st) c)
       \<and> (seedCovered b (tempOverlay st) c \<longleftrightarrow>
            0 \<le> js_round (claim_x c) \<and> js_round (claim_x c) < width b \<and>
            0 \<le> js_round (claim_y c) \<and> js_round (claim_y c) < height b \<and>
            (\<exists>a. byte_at (tempOverlay st)
                    ((js_round (claim_y c) * width b + js_round (claim_x c)) * 4 + 3) = Some a
                 \<and> a \<noteq> 0))"
proof -
  have m: "claim_id c \<in> set (idsToDelete b (tempOverlay st) existing)
             \<longleftrightarrow> seedCovered b (tempOverlay st) c"
    unfolding idsToDelete_set using assms(3,4) by (rule distinct_ids_member)
  have cov: "seedCovered b (tempOverlay st) c \<longleftrightarrow>
            0 \<le> js_round (claim_x c) \<and> js_round (claim_x c) < width b \<and>
            0 \<le> js_round (claim_y c) \<and> js_round (claim_y c) < height b \<and>
            (\<exists>a. byte_at (tempOverlay st)
                    ((js_round (claim_y c) * width b + js_round (claim_x c)) * 4 + 3) = Some a
                 \<and> a \<noteq> 0)"
    by (auto simp: seedCovered_def Let_def js_gt_def getIndex_def word_gt_0 split: option.splits)
  show ?thesis
    using m cov assms(1,2) by (simp add: confirm_deletedIds confirm_v2_deletedIds)
qed

definition saved_at :: "int \<Rightarrow> real \<Rightarrow> real \<Rightarrow> saved_claim" where
  "saved_at i px py =
     \<lparr>claim_id = i, claim_x = px, claim_y = py, claim_date = ''2024-04-30T08:00:00.000Z'',
      claim_team = None, claim_color = Some ''#ff0000'', claim_user_id = Some 1\<rparr>"

definition store_down :: responses where
  "store_down = \<lparr>existingResp = Some [saved_at 7 1 0], insertOk = False, insertBodyOk = False,
                  reloadResp1 = None, reloadResp2 = None\<rparr>"

theorem confirm_deletes_covered_seeds_witness:
  "pendingClaims filled_row_client \<noteq> []
   \<and> existingResp store_down = Some [saved_at 7 1 0]
   \<and> distinct (map claim_id [saved_at 7 1 0])
   \<and> saved_at 7 1 0 \<in> set [saved_at 7 1 0]
   \<and> seedCovered white_row (tempOverlay filled_row_client) (saved_at 7 1 0)
   \<and> claim_id (saved_at 7 1 0)
        \<in> set (deletedIds (fst (snd (confirmPendingClaims hexDigits white_row store_down filled_row_client))))"
proof -
  have h: "pendingClaims filled_row_client \<noteq> []" "existingResp store_down = Some [saved_at 7 1 0]"
    "distinct (map claim_id [saved_at 7 1 0])" "saved_at 7 1 0 \<in> set [saved_at 7 1 0]"
    by (simp_all add: filled_row_client_def store_down_def)
  have c: "seedCovered white_row (tempOverlay filled_row_client) (saved_at 7 1 0)"
    by (simp add: seedCovered_def saved_at_def js_round_def white_row_def filled_row_client_def
        getIndex_def byte_at_def js_gt_def)
  from confirm_deletes_covered_seeds [OF h, of hexDigits white_row] h c
  show ?thesis by simp
qed

text \<open>
  C8. In either script, when a confirm sends \<^verbatim>\<open>POST /claims\<close> and the request fails,
  the confirm shows the alert and leaves the whole client state as it was, in
  particular the pending claim list and the pending overlay buffer. The first script
  posts only when some pending claim has a team other than \<^verbatim>\<open>'__EMPTY__'\<close>.
\<close>

theorem confirm_insert_failure_keeps_pending:
  "(pendingClaims st \<noteq> [] \<and> filter (\<lambda>c. team c \<noteq> Some ''__EMPTY__'') (pendingClaims st) \<noteq> []
      \<and> \<not> insertOk net
    \<longrightarrow> fst (confirmPendingClaims parseHex b net st) = st
      \<and> pendingClaims (fst (confirmPendingClaims parseHex b net st)) = pendingClaims st
      \<and> tempOverlay (fst (confirmPendingClaims parseHex b net st)) = tempOverlay st
      \<and> snd (snd (confirmPendingClaims parseHex b net st)))
   \<and> (pendingClaims st \<noteq> [] \<and> \<not> insertOk net
    \<longrightarrow> fst (confirmPendingClaims_v2 parseHex b net st) = st
      \<and> pendingClaims (fst (confirmPendingClaims_v2 parseHex b net st)) = pendingClaims st
      \<and> tempOverlay (fst (confirmPendingClaims_v2 parseHex b net st)) = tempOverlay st
      \<and> snd (snd (confirmPendingClaims_v2 parseHex b net st)))"
  by (simp add: confirmPendingClaims_def confirmPendingClaims_v2_def Let_def)

theorem confirm_insert_failure_keeps_pending_witness:
  "pendingClaims filled_row_client \<noteq> []
   \<and> filter (\<lambda>c. team c \<noteq> Some ''__EMPTY__'') (pendingClaims filled_row_client) \<noteq> []
   \<and> \<not> insertOk store_down
   \<and> fst (confirmPendingClaims hexDigits white_row store_down filled_row_client) = filled_row_client
   \<and> fst (confirmPendingClaims_v2 hexDigits white_row store_down filled_row_client) = filled_row_client"
proof -
  have h: "pendingClaims filled_row_client \<noteq> []"
    "filter (\<lambda>c. team c \<noteq> Some ''__EMPTY__'') (pendingClaims filled_row_client) \<noteq> []"
    "\<not> insertOk store_down"
    by (simp_all add: filled_row_client_def store_down_def)
  from confirm_insert_failure_keeps_pending [of filled_row_client store_down hexDigits white_row] h
  show ?thesis by simp
qed

lemma idsChanged_iff:
  assumes "finite rendered"
  shows "idsChanged claims rendered \<longleftrightarrow> set (map claim_id claims) \<noteq> rendered"
proof -
  let ?S = "set (map claim_id claims)"
  have len: "length (remdups (map claim_id claims)) = card ?S"
    by (simp add: length_remdups_card_conv)
  have all: "list_all (\<lambda>i. i \<in> rendered) (remdups (map claim_id claims)) \<longleftrightarrow> ?S \<subseteq> rendered"
    by (auto simp: list_all_iff)
  have "card ?S = card rendered \<and> ?S \<subseteq> rendered \<longleftrightarrow> ?S = rendered"
    using card_subset_eq [OF assms, of ?S] by blast
  then show ?thesis
    unfolding idsChanged_def Let_def len all by blast
qed

text \<open>
  C9 (as amended). The poll of the first script calls \<^verbatim>\<open>reloadSavedClaims\<close> only when
  the number of fetched claims differs from \<^verbatim>\<open>lastClaimCount\<close>; the reload fetches
  again and clears and repaints the saved overlay iff the set of ids it fetched differs
  from \<^verbatim>\<open>renderedClaimIds\<close>. So a poll repaints iff both fetches succeed, the count
  differs and the id set differs; with an id set equal to the rendered one, or with
  an unchanged count, it does not repaint.
\<close>

theorem pollClaims_repaint_condition:
  assumes "finite (renderedClaimIds st)"
  shows "(snd (pollClaims parseHex b (Some claims) (Some claims') st) \<longleftrightarrow>
            int (length claims) \<noteq> lastClaimCount st
            \<and> set (map claim_id claims') \<noteq> renderedClaimIds st)
       \<and> (set (map claim_id claims') = renderedClaimIds st
            \<longrightarrow> \<not> snd (pollClaims parseHex b resp (Some claims') st))
       \<and> (resp = None \<or> resp' = None \<longrightarrow> \<not> snd (pollClaims parseHex b resp resp' st))"
  using idsChanged_iff [OF assms]
  by (auto simp: pollClaims_def reloadSavedClaims_def Let_def split: option.splits)

definition rendered_one :: client where
  "rendered_one =
     \<lparr>pendingClaims = [], debugSeeds = [],
      overlayComposites = [\<lparr>regionW = 2, regionH = 1, cminX = 0, cminY = 0, cmaxX = 1, cmaxY = 0\<rparr>],
      tempOverlay = [0, 0, 0, 0, 0, 0, 0, 0],
      savedOverlay = [255, 0, 0, 255, 255, 0, 0, 255],
      renderedClaimIds = {1}, lastClaimCount = 1\<rparr>"

theorem pollClaims_repaint_condition_witness:
  "finite (renderedClaimIds rendered_one)
   \<and> set (map claim_id [saved_at 1 0 0]) = renderedClaimIds rendered_one
   \<and> \<not> snd (pollClaims hexDigits white_row (Some [saved_at 1 0 0]) (Some [saved_at 1 0 0]) rendered_one)
   \<and> snd (pollClaims hexDigits white_row (Some [saved_at 1 0 0, saved_at 2 1 0])
             (Some [saved_at 1 0 0, saved_at 2 1 0]) rendered_one)"
proof -
  have h: "finite (renderedClaimIds rendered_one)"
    "set (map claim_id [saved_at 1 0 0]) = renderedClaimIds rendered_one"
    "set (map claim_id [saved_at 1 0 0, saved_at 2 1 0]) \<noteq> renderedClaimIds rendered_one"
    "int (length [saved_at 1 0 0, saved_at 2 1 0]) \<noteq> lastClaimCount rendered_one"
    by (auto simp: rendered_one_def saved_at_def)
  from pollClaims_repaint_condition [OF h(1), of hexDigits white_row "[saved_at 1 0 0]" "[saved_at 1 0 0]"]
       pollClaims_repaint_condition [OF h(1), of hexDigits white_row "[saved_at 1 0 0, saved_at 2 1 0]"
         "[saved_at 1 0 0, saved_at 2 1 0]"] h
  show ?thesis by simp
qed

text \<open>
  The claim as stated fails: the rendered claim 1 was replaced in the store by claim 2,
  so the fetched id set \<open>{2}\<close> differs from the rendered set \<open>{1}\<close>; the number of claims
  is still 1, and the poll does not repaint.
\<close>

theorem pollClaims_same_count_counterexample:
  "set (map claim_id [saved_at 2 1 0]) \<noteq> renderedClaimIds rendered_one
   \<and> \<not> snd (pollClaims hexDigits white_row (Some [saved_at 2 1 0]) (Some [saved_at 2 1 0]) rendered_one)"
  by (simp add: pollClaims_def rendered_one_def saved_at_def)

subsection \<open>The framed raster scenario\<close>

text \<open>
  A 100 by 100 base raster, opaque white inside a black frame one pixel wide, and the
  overlay buffer in which exactly the pixels with index in \<open>P\<close> carry the colour \<open>c\<close>
  and all others are transparent.
\<close>

definition frame_pixel :: "nat \<Rightarrow> byte list" where
  "frame_pixel i =
     (if 1 \<le> i mod 100 \<and> i mod 100 \<le> 98 \<and> 1 \<le> i div 100 \<and> i div 100 \<le> 98
      then [255, 255, 255, 255] else [0, 0, 0, 255])"

definition frame_raster :: raster where
  "frame_raster = \<lparr>width = 100, height = 100, baseData = concat (map frame_pixel [0..<10000])\<rparr>"

definition overlay_pixel :: "rgba \<Rightarrow> int set \<Rightarrow> nat \<Rightarrow> byte list" where
  "overlay_pixel c P i = (if int i \<in> P then [red c, green c, blue c, alpha c] else [0, 0, 0, 0])"

definition overlay_of :: "rgba \<Rightarrow> int set \<Rightarrow> byte list" where
  "overlay_of c P = concat (map (overlay_pixel c P) [0..<10000])"

text \<open>The pixel indices \<open>y * 100 + x\<close> of the interior columns of the rows in \<open>R\<close>.\<close>

definition rows_px :: "int set \<Rightarrow> int set" where
  "rows_px R = {i. i div 100 \<in> R \<and> 1 \<le> i mod 100 \<and> i mod 100 \<le> 98}"

lemma length_concat_blocks:
  "(\<And>i. length (f i) = 4) \<Longrightarrow> length (concat (map f [0..<n])) = 4 * n"
  by (induction n) auto

lemma nth_concat_blocks:
  assumes "\<And>i. length (f i) = 4" "i < n" "k < 4"
  shows "concat (map f [0..<n]) ! (4 * i + k) = f i ! k"
  using assms(2)
proof (induction n)
  case 0
  then show ?case by simp
next
  case (Suc n)
  have len: "length (concat (map f [0..<n])) = 4 * n"
    using assms(1) by (rule length_concat_blocks)
  show ?case
  proof (cases "i < n")
    case True
    with Suc.IH assms(3) len show ?thesis by (simp add: nth_append)
  next
    case False
    with Suc.prems have "i = n" by simp
    with assms(3) len show ?thesis by (simp add: nth_append)
  qed
qed

lemma length_overlay_of [simp]: "length (overlay_of c P) = 40000"
  unfolding overlay_of_def
  by (subst length_concat_blocks) (simp_all add: overlay_pixel_def)

lemma overlay_of_empty: "overlay_of c {} = replicate 40000 0"
proof (rule nth_equalityI)
  show "length (overlay_of c {}) = length (replicate 40000 (0::byte))" by simp
next
  fix m assume "m < length (overlay_of c {})"
  then have m: "m < 40000" by simp
  define i k where "i = m div 4" and "k = m mod 4"
  then have mk: "m = 4 * i + k" "i < 10000" "k < 4" using m by auto
  have "overlay_of c {} ! (4 * i + k) = overlay_pixel c {} i ! k"
    unfolding overlay_of_def using mk by (intro nth_concat_blocks) (simp_all add: overlay_pixel_def)
  also have "\<dots> = 0" using mk(3) by (auto simp: overlay_pixel_def nth_Cons' )
  finally show "overlay_of c {} ! m = replicate 40000 0 ! m" using mk m by simp
qed

lemma overlay_of_nth:
  assumes "i < 10000" "k < 4"
  shows "overlay_of c P ! (4 * i + k) = overlay_pixel c P i ! k"
  unfolding overlay_of_def using assms
  by (intro nth_concat_blocks) (simp_all add: overlay_pixel_def)

lemma byte_at_overlay_of:
  assumes "0 \<le> i" "i < 10000" "0 \<le> k" "k < 4"
  shows "byte_at (overlay_of c P) (i * 4 + k) = Some (overlay_pixel c P (nat i) ! nat k)"
proof -
  have "nat (i * 4 + k) = 4 * nat i + nat k" using assms by (simp add: nat_add_distrib nat_mult_distrib)
  moreover have "nat i < 10000" "nat k < 4" using assms by auto
  ultimately show ?thesis
    using assms overlay_of_nth [of "nat i" "nat k" c P] by (simp add: byte_at_def)
qed

lemma pixelHasFill_overlay_of:
  assumes "0 \<le> i" "i < 10000" "alpha c \<noteq> 0"
  shows "pixelHasFill (overlay_of c P) (i * 4) \<longleftrightarrow> i \<in> P"
  using byte_at_overlay_of [OF assms(1,2), of 3 c P] assms
  by (simp add: pixelHasFill_def overlay_pixel_def)

lemma overlay_of_paint:
  assumes "0 \<le> i" "i < 10000"
  shows "set_byte (set_byte (set_byte (set_byte (overlay_of c P) (i * 4) (red c))
            (i * 4 + 1) (green c)) (i * 4 + 2) (blue c)) (i * 4 + 3) (alpha c)
         = overlay_of c (insert i P)"
proof -
  let ?n = "4 * nat i"
  have idx: "nat (i * 4) = ?n" "nat (i * 4 + 1) = ?n + 1" "nat (i * 4 + 2) = ?n + 2"
    "nat (i * 4 + 3) = ?n + 3" "?n + 3 < 40000"
    using assms by auto
  have lhs: "set_byte (set_byte (set_byte (set_byte (overlay_of c P) (i * 4) (red c))
            (i * 4 + 1) (green c)) (i * 4 + 2) (blue c)) (i * 4 + 3) (alpha c)
      = (overlay_of c P)[?n := red c, ?n + 1 := green c, ?n + 2 := blue c, ?n + 3 := alpha c]"
    using assms idx by (simp add: set_byte_def)
  have "(overlay_of c P)[?n := red c, ?n + 1 := green c, ?n + 2 := blue c, ?n + 3 := alpha c]
          = overlay_of c (insert i P)"
  proof (rule nth_equalityI)
    show "length ((overlay_of c P)[?n := red c, ?n + 1 := green c, ?n + 2 := blue c, ?n + 3 := alpha c])
            = length (overlay_of c (insert i P))" by simp
  next
    fix m assume "m < length ((overlay_of c P)[?n := red c, ?n + 1 := green c, ?n + 2 := blue c, ?n + 3 := alpha c])"
    then have m: "m < 40000" by simp
    define j k where "j = m div 4" and "k = m mod 4"
    then have mk: "m = 4 * j + k" "j < 10000" "k < 4" using m by auto
    have r: "overlay_of c (insert i P) ! m = overlay_pixel c (insert i P) j ! k"
      using overlay_of_nth [OF mk(2,3)] mk(1) by simp
    have l0: "overlay_of c P ! m = overlay_pixel c P j ! k"
      using overlay_of_nth [OF mk(2,3)] mk(1) by simp
    show "(overlay_of c P)[?n := red c, ?n + 1 := green c, ?n + 2 := blue c, ?n + 3 := alpha c] ! m
            = overlay_of c (insert i P) ! m"
    proof (cases "j = nat i")
      case True
      then have "int j = i" using assms by simp
      then have "overlay_pixel c (insert i P) j = [red c, green c, blue c, alpha c]"
        by (simp add: overlay_pixel_def)
      moreover have "k = 0 \<or> k = 1 \<or> k = 2 \<or> k = 3" using mk(3) by auto
      ultimately show ?thesis
        using r True mk(1) idx(5) by (auto simp: nth_list_update)
    next
      case False
      then have "int j \<noteq> i" using assms by auto
      then have "overlay_pixel c (insert i P) j = overlay_pixel c P j"
        by (simp add: overlay_pixel_def)
      moreover have "m \<noteq> ?n" "m \<noteq> ?n + 1" "m \<noteq> ?n + 2" "m \<noteq> ?n + 3"
        using False mk by auto
      ultimately show ?thesis
        using r l0 by (simp add: nth_list_update)
    qed
  qed
  with lhs show ?thesis by simp
qed

lemma frame_raster_bytes:
  assumes "0 \<le> x" "x < 100" "0 \<le> y" "y < 100" "0 \<le> k" "k < 4"
  shows "byte_at (baseData frame_raster) ((y * 100 + x) * 4 + k)
           = Some ((if 1 \<le> x \<and> x \<le> 98 \<and> 1 \<le> y \<and> y \<le> 98
                    then [255, 255, 255, 255] else [0, 0, 0, 255]) ! nat k)"
proof -
  define i where "i = nat (y * 100 + x)"
  have i: "i < 10000" "i mod 100 = nat x" "i div 100 = nat y"
    using assms by (auto simp: i_def nat_add_distrib nat_mult_distrib nat_mod_distrib nat_div_distrib)
  have len: "length (baseData frame_raster) = 40000"
    unfolding frame_raster_def
    by (simp, subst length_concat_blocks) (simp_all add: frame_pixel_def)
  have "nat ((y * 100 + x) * 4 + k) = 4 * i + nat k"
    using assms by (simp add: i_def nat_add_distrib nat_mult_distrib)
  moreover have "concat (map frame_pixel [0..<10000]) ! (4 * i + nat k) = frame_pixel i ! nat k"
    using i(1) assms by (intro nth_concat_blocks) (auto simp: frame_pixel_def)
  moreover have "frame_pixel i = (if 1 \<le> x \<and> x \<le> 98 \<and> 1 \<le> y \<and> y \<le> 98
              then [255, 255, 255, 255] else [0, 0, 0, 255])"
    using assms i by (auto simp: frame_pixel_def)
  ultimately show ?thesis
    using assms len by (simp add: byte_at_def frame_raster_def)
qed

lemma frame_raster_white:
  "isBaseWhiteXY frame_raster x y \<longleftrightarrow> 1 \<le> x \<and> x \<le> 98 \<and> 1 \<le> y \<and> y \<le> 98"
proof (cases "0 \<le> x \<and> x < 100 \<and> 0 \<le> y \<and> y < 100")
  case False
  then show ?thesis by (auto simp: isBaseWhiteXY_def frame_raster_def)
next
  case True
  then have b: "0 \<le> x" "x < 100" "0 \<le> y" "y < 100" by auto
  show ?thesis
    using True frame_raster_bytes [OF b, of 0] frame_raster_bytes [OF b, of 1]
      frame_raster_bytes [OF b, of 2]
    by (auto simp: isBaseWhiteXY_def Let_def frame_raster_def [THEN arg_cong, of width]
        frame_raster_def [THEN arg_cong, of height])
qed

text \<open>The claimable pixels of the framed raster, as a predicate.\<close>

definition inner :: "int \<Rightarrow> int \<Rightarrow> bool" where
  "inner x y = (1 \<le> x \<and> x \<le> 98 \<and> 1 \<le> y \<and> y \<le> 98)"

lemma frame_raster_inner: "isBaseWhiteXY frame_raster = inner"
  by (intro ext) (simp add: frame_raster_white inner_def)

definition row_free :: "int set \<Rightarrow> int \<Rightarrow> bool" where
  "row_free R y = (1 \<le> y \<and> y \<le> 98 \<and> y \<notin> R)"

text \<open>The pixels of row \<open>y\<close> in columns \<open>1, \<dots>, i - 1\<close>.\<close>

definition seg :: "int \<Rightarrow> int \<Rightarrow> int set" where
  "seg y i = {y * 100 + j |j. 1 \<le> j \<and> j < i}"

text \<open>
  The state of a scan in which exactly the rows in \<open>R\<close> are painted, and the state
  in the middle of painting row \<open>y\<close>, before column \<open>i\<close>. The bounding box starts with
  \<open>maxX = maxY = m0\<close>: \<open>- 1\<close> in the first script, \<open>0\<close> in the second.
\<close>

definition part_state :: "int \<Rightarrow> rgba \<Rightarrow> int set \<Rightarrow> int \<Rightarrow> int \<Rightarrow> point list \<Rightarrow> scan" where
  "part_state m0 c R y i st =
     \<lparr>data = overlay_of c (rows_px R \<union> seg y i), visited = rows_px R \<union> seg y i, stack = st,
      filledCount = 98 * card R + nat (i - 1),
      minX = (if R = {} \<and> i = 1 then 100 else 1),
      minY = (if i = 1 then Min (insert 100 R) else Min (insert 100 (insert y R))),
      maxX = (if R = {} then (if i = 1 then m0 else i - 1) else 98),
      maxY = (if i = 1 then Max (insert m0 R) else Max (insert m0 (insert y R)))\<rparr>"

definition row_state :: "int \<Rightarrow> rgba \<Rightarrow> int set \<Rightarrow> point list \<Rightarrow> scan" where
  "row_state m0 c R st =
     \<lparr>data = overlay_of c (rows_px R), visited = rows_px R, stack = st,
      filledCount = 98 * card R,
      minX = (if R = {} then 100 else 1),
      minY = Min (insert 100 R),
      maxX = (if R = {} then m0 else 98),
      maxY = Max (insert m0 R)\<rparr>"

lemma seg_1 [simp]: "seg y 1 = {}"
  by (auto simp: seg_def)

lemma seg_Suc: "1 \<le> i \<Longrightarrow> seg y (i + 1) = insert (y * 100 + i) (seg y i)"
  by (auto simp: seg_def)

lemma px_div_mod:
  fixes x y :: int
  assumes "0 \<le> x" "x < 100"
  shows "(y * 100 + x) div 100 = y" "(y * 100 + x) mod 100 = x"
  using assms by auto

lemma rows_px_insert:
  "rows_px (insert y R) = rows_px R \<union> seg y 99"
proof -
  have "i \<in> seg y 99 \<longleftrightarrow> i div 100 = y \<and> 1 \<le> i mod 100 \<and> i mod 100 \<le> 98" for i
  proof
    assume "i \<in> seg y 99"
    then obtain j where "i = y * 100 + j" "1 \<le> j" "j < 99" by (auto simp: seg_def)
    then show "i div 100 = y \<and> 1 \<le> i mod 100 \<and> i mod 100 \<le> 98"
      using px_div_mod [of j y] by simp
  next
    assume a: "i div 100 = y \<and> 1 \<le> i mod 100 \<and> i mod 100 \<le> 98"
    have "i = (i div 100) * 100 + i mod 100" by simp
    with a show "i \<in> seg y 99"
      unfolding seg_def by (intro CollectI exI [of _ "i mod 100"]) auto
  qed
  then show ?thesis by (auto simp: rows_px_def)
qed

lemma part_state_1: "part_state m0 c R y 1 st = row_state m0 c R st"
  by (simp add: part_state_def row_state_def)

lemma part_state_99:
  assumes "finite R" "y \<notin> R"
  shows "part_state m0 c R y 99 st = row_state m0 c (insert y R) st"
  using assms by (simp add: part_state_def row_state_def rows_px_insert)

lemma px_not_in_part:
  assumes "1 \<le> i" "i \<le> 98" "y \<notin> R"
  shows "y * 100 + i \<notin> rows_px R \<union> seg y i"
proof -
  have "(y * 100 + i) div 100 = y" using assms px_div_mod [of i y] by simp
  with assms(3) have "y * 100 + i \<notin> rows_px R" by (simp add: rows_px_def)
  moreover have "y * 100 + i \<notin> seg y i" by (auto simp: seg_def)
  ultimately show ?thesis by simp
qed

lemma px_in_rows:
  assumes "1 \<le> x" "x \<le> 98"
  shows "y * 100 + x \<in> rows_px R \<longleftrightarrow> y \<in> R"
  using assms px_div_mod [of x y] by (simp add: rows_px_def)

lemma px_range:
  fixes x y :: int
  assumes "1 \<le> x" "x \<le> 98" "1 \<le> y" "y \<le> 98"
  shows "0 \<le> y * 100 + x" "y * 100 + x < 10000"
  using assms by auto

lemma fillable_part:
  assumes "alpha c \<noteq> 0" "1 \<le> i" "i \<le> 98" "1 \<le> y" "y \<le> 98" "y \<notin> R"
  shows "fillable inner 100 (overlay_of c (rows_px R \<union> seg y i)) (rows_px R \<union> seg y i) i y"
proof -
  have n: "y * 100 + i \<notin> rows_px R \<union> seg y i"
    using assms by (intro px_not_in_part) auto
  have "\<not> pixelHasFill (overlay_of c (rows_px R \<union> seg y i)) ((y * 100 + i) * 4)"
    using pixelHasFill_overlay_of [OF px_range [OF assms(2-5)] assms(1)] n by simp
  with n assms show ?thesis
    by (simp add: fillable_def inner_def getIndex_def)
qed

lemma fillable_rows:
  assumes "alpha c \<noteq> 0" "1 \<le> x" "x \<le> 98"
  shows "fillable inner 100 (overlay_of c (rows_px R)) (rows_px R) x y \<longleftrightarrow> row_free R y"
proof (cases "1 \<le> y \<and> y \<le> 98")
  case False
  then show ?thesis by (auto simp: fillable_def inner_def row_free_def)
next
  case True
  then have r: "0 \<le> y * 100 + x" "y * 100 + x < 10000" using assms by auto
  show ?thesis
    using pixelHasFill_overlay_of [OF r assms(1), of "rows_px R"] True assms
    by (auto simp: fillable_def inner_def row_free_def getIndex_def px_in_rows)
qed

lemma not_fillable_frame: "\<not> fillable inner 100 d vis 0 y" "\<not> fillable inner 100 d vis 99 y"
  by (simp_all add: fillable_def inner_def)

lemma walk_left_row:
  assumes "alpha c \<noteq> 0" "row_free R y" "1 \<le> x" "x \<le> 98"
  shows "walk_left inner 100 (overlay_of c (rows_px R)) (rows_px R) x y = 1"
  using assms(3,4)
proof (induction "nat x" arbitrary: x)
  case 0
  then show ?case by simp
next
  case (Suc n)
  show ?case
  proof (cases "x = 1")
    case True
    then show ?thesis
      by (simp add: walk_left.simps [of inner 100 _ _ 1 y] not_fillable_frame)
  next
    case False
    with Suc.prems have x: "1 \<le> x - 1" "x - 1 \<le> 98" by auto
    have "n = nat (x - 1)" using Suc.hyps(2) by simp
    from Suc.hyps(1) [OF this x] fillable_rows [OF assms(1) x, of R y] assms(2) Suc.prems
    show ?thesis
      by (simp add: walk_left.simps [of inner 100 _ _ x y])
  qed
qed

lemma paint_pixel_part:
  assumes "finite R" "1 \<le> i" "i \<le> 98" "1 \<le> y" "y \<le> 98" "m0 < 1"
  shows "paint_pixel 100 c i y (part_state m0 c R y i st) = part_state m0 c R y (i + 1) st"
proof -
  have r: "0 \<le> y * 100 + i" "y * 100 + i < 10000" using assms by auto
  have d: "set_byte (set_byte (set_byte (set_byte (overlay_of c (rows_px R \<union> seg y i))
              ((y * 100 + i) * 4) (red c)) ((y * 100 + i) * 4 + 1) (green c))
              ((y * 100 + i) * 4 + 2) (blue c)) ((y * 100 + i) * 4 + 3) (alpha c)
           = overlay_of c (rows_px R \<union> seg y (i + 1))"
    using overlay_of_paint [OF r, of c "rows_px R \<union> seg y i"] assms(2)
    by (simp add: seg_Suc)
  have mn: "Min (insert 100 (insert y R)) = min y (Min (insert 100 R))"
    using assms(1) by (simp add: insert_commute [of 100 y])
  have mx: "Max (insert m0 (insert y R)) = max y (Max (insert m0 R))"
    using assms(1) by (simp add: insert_commute [of m0 y])
  have le1: "Min (insert 100 (insert y R)) \<le> y"
    by (rule Min_le) (use assms(1) in auto)
  have le2: "y \<le> Max (insert m0 (insert y R))"
    by (rule Max_ge) (use assms(1) in auto)
  note le = le1 le2
  have cnt: "98 * card R + nat (i - 1) + 1 = 98 * card R + nat i"
    using assms(2) by auto
  show ?thesis
    unfolding paint_pixel_def part_state_def Let_def getIndex_def
    using d mn mx le cnt assms(2,3,6)
    by (auto simp: seg_Suc min_def max_def)
qed

lemma paint_right_row:
  assumes "alpha c \<noteq> 0" "finite R" "row_free R y" "1 \<le> i" "i \<le> 99" "m0 < 1"
  shows "paint_right inner 100 c y i (part_state m0 c R y i st) = (99, part_state m0 c R y 99 st)"
  using assms(4,5)
proof (induction "nat (99 - i)" arbitrary: i)
  case 0
  then have "i = 99" by simp
  then show ?case
    by (simp add: paint_right.simps [of inner 100 c y 99] not_fillable_frame)
next
  case (Suc n)
  then have i: "1 \<le> i" "i \<le> 98" by auto
  from assms(3) have y: "1 \<le> y" "y \<le> 98" "y \<notin> R" by (auto simp: row_free_def)
  have f: "fillable inner 100 (data (part_state m0 c R y i st)) (visited (part_state m0 c R y i st)) i y"
    using fillable_part [OF assms(1) i y] by (simp add: part_state_def)
  have n: "n = nat (99 - (i + 1))" using Suc.hyps(2) by simp
  have "paint_right inner 100 c y (i + 1) (part_state m0 c R y (i + 1) st) = (99, part_state m0 c R y 99 st)"
    using Suc.hyps(1) [OF n] i by simp
  with f i show ?case
    by (simp add: paint_right.simps [of inner 100 c y i] paint_pixel_part [OF assms(2) i y(1,2) assms(6)])
qed


text \<open>What one column \<open>j\<close> of a painted row \<open>y\<close> pushes, when exactly the rows in \<open>R\<close> are painted.\<close>

definition row_push :: "int set \<Rightarrow> int \<Rightarrow> point list \<Rightarrow> int \<Rightarrow> point list" where
  "row_push R y st j =
     (if row_free R (y + 1) then [(j, y + 1)] else []) @
     (if row_free R (y - 1) then [(j, y - 1)] else []) @ st"

lemma push_rows_row:
  assumes "alpha c \<noteq> 0" "1 \<le> j" "j \<le> 98" "1 \<le> y" "y \<le> 98"
  shows "push_rows inner 100 100 (overlay_of c (rows_px R)) (rows_px R) y st j = row_push R y st j"
  using assms fillable_rows [OF assms(1-3), of R]
  by (simp add: push_rows_def row_push_def Let_def)

lemma foldl_push_rows_row:
  assumes "alpha c \<noteq> 0" "1 \<le> y" "y \<le> 98"
  shows "foldl (push_rows inner 100 100 (overlay_of c (rows_px R)) (rows_px R) y) st [1..98]
           = foldl (row_push R y) st [1..98]"
  by (rule foldl_cong) (use assms in \<open>auto intro: push_rows_row\<close>)

lemma foldl_row_push_append:
  "foldl (row_push R y) st js = foldl (row_push R y) [] js @ st"
proof (induction js arbitrary: st)
  case Nil
  then show ?case by simp
next
  case (Cons j js)
  have "foldl (row_push R y) (row_push R y st j) js = foldl (row_push R y) [] js @ row_push R y st j"
    by (rule Cons.IH)
  moreover have "foldl (row_push R y) (row_push R y [] j) js
                   = foldl (row_push R y) [] js @ row_push R y [] j"
    by (rule Cons.IH)
  moreover have "row_push R y st j = row_push R y [] j @ st"
    by (simp add: row_push_def)
  ultimately show ?case by simp
qed

lemma foldl_row_push_set:
  "(a, b) \<in> set (foldl (row_push R y) [] js) \<Longrightarrow>
     a \<in> set js \<and> ((b = y + 1 \<and> row_free R (y + 1)) \<or> (b = y - 1 \<and> row_free R (y - 1)))"
proof (induction js arbitrary: a b rule: rev_induct)
  case Nil
  then show ?case by simp
next
  case (snoc j js)
  from snoc.prems have "(a, b) \<in> set (row_push R y (foldl (row_push R y) [] js) j)" by simp
  then have "(a, b) \<in> set (foldl (row_push R y) [] js) \<or>
             (a = j \<and> b = y + 1 \<and> row_free R (y + 1)) \<or> (a = j \<and> b = y - 1 \<and> row_free R (y - 1))"
    by (auto simp: row_push_def split: if_splits)
  with snoc.IH [of a b] show ?case by auto
qed

lemma upto_1_98: "[1..98] = [1..97] @ [98::int]"
  using upto_rec2 [of 1 98] by simp

lemma row_state_stack [simp]:
  "stack (row_state m0 c R st) = st"
  "(row_state m0 c R st)\<lparr>stack := st'\<rparr> = row_state m0 c R st'"
  by (simp_all add: row_state_def)

text \<open>The stack after a row has been painted, split at its top.\<close>

lemma row_stack_split:
  obtains T where
    "foldl (row_push R y) rest [1..98]
       = (if row_free R (y + 1) then [(98, y + 1)] else []) @
         (if row_free R (y - 1) then [(98, y - 1)] else []) @ T @ rest"
    "\<forall>e \<in> set T. 1 \<le> fst e \<and> fst e \<le> 98 \<and>
        ((snd e = y + 1 \<and> row_free R (y + 1)) \<or> (snd e = y - 1 \<and> row_free R (y - 1)))"
proof
  let ?T = "foldl (row_push R y) [] [1..97]"
  have 1: "foldl (row_push R y) rest [1..98] = row_push R y (foldl (row_push R y) rest [1..97]) 98"
    by (simp add: upto_1_98)
  have 2: "foldl (row_push R y) rest [1..97] = ?T @ rest"
    by (rule foldl_row_push_append)
  have 3: "row_push R y (?T @ rest) 98
       = (if row_free R (y + 1) then [(98, y + 1)] else []) @
         (if row_free R (y - 1) then [(98, y - 1)] else []) @ ?T @ rest"
    unfolding row_push_def [of R y "?T @ rest" 98] ..
  show "foldl (row_push R y) rest [1..98]
       = (if row_free R (y + 1) then [(98, y + 1)] else []) @
         (if row_free R (y - 1) then [(98, y - 1)] else []) @ ?T @ rest"
    unfolding 1 2 3 ..
  show "\<forall>e \<in> set ?T. 1 \<le> fst e \<and> fst e \<le> 98 \<and>
        ((snd e = y + 1 \<and> row_free R (y + 1)) \<or> (snd e = y - 1 \<and> row_free R (y - 1)))"
  proof
    fix e assume e: "e \<in> set ?T"
    obtain a b where ab: "e = (a, b)" by (cases e)
    from foldl_row_push_set [of a b R y "[1..97]"] e ab
    show "1 \<le> fst e \<and> fst e \<le> 98 \<and>
        ((snd e = y + 1 \<and> row_free R (y + 1)) \<or> (snd e = y - 1 \<and> row_free R (y - 1)))"
      by auto
  qed
qed

text \<open>
  Both scripts run the same outer loop around their own step. The facts below hold for
  every loop of that shape whose step paints a free row as a whole and leaves the state
  alone at a painted pixel whose neighbouring rows are not free.
\<close>

definition scan_loop :: "(scan \<Rightarrow> scan) \<Rightarrow> (scan \<Rightarrow> point \<Rightarrow> scan) \<Rightarrow> bool" where
  "scan_loop loop step =
     (\<forall>s. loop s = (case stack s of [] \<Rightarrow> s | p # rest \<Rightarrow> loop (step (s\<lparr>stack := rest\<rparr>) p)))"

definition paints_rows :: "int \<Rightarrow> rgba \<Rightarrow> (scan \<Rightarrow> point \<Rightarrow> scan) \<Rightarrow> bool" where
  "paints_rows m0 c step =
     (\<forall>R x y rest. finite R \<longrightarrow> row_free R y \<longrightarrow> 1 \<le> x \<longrightarrow> x \<le> 98 \<longrightarrow>
        step (row_state m0 c R rest) (x, y)
          = row_state m0 c (insert y R) (foldl (row_push (insert y R) y) rest [1..98]))"

definition skips_painted :: "int \<Rightarrow> rgba \<Rightarrow> (scan \<Rightarrow> point \<Rightarrow> scan) \<Rightarrow> bool" where
  "skips_painted m0 c step =
     (\<forall>R x y rest. 1 \<le> x \<longrightarrow> x \<le> 98 \<longrightarrow> y \<in> R \<longrightarrow> \<not> row_free R (y - 1) \<longrightarrow> \<not> row_free R (y + 1) \<longrightarrow>
        step (row_state m0 c R rest) (x, y) = row_state m0 c R rest)"

lemma loop_row:
  assumes "scan_loop loop step" "paints_rows m0 c step"
    and "finite R" "row_free R y" "1 \<le> x" "x \<le> 98"
  shows "loop (row_state m0 c R ((x, y) # rest))
           = loop (row_state m0 c (insert y R) (foldl (row_push (insert y R) y) rest [1..98]))"
proof -
  have "loop (row_state m0 c R ((x, y) # rest)) = loop (step (row_state m0 c R rest) (x, y))"
    using assms(1) [unfolded scan_loop_def, rule_format, of "row_state m0 c R ((x, y) # rest)"]
    by simp
  also have "step (row_state m0 c R rest) (x, y)
               = row_state m0 c (insert y R) (foldl (row_push (insert y R) y) rest [1..98])"
    using assms(2-6) unfolding paints_rows_def by blast
  finally show ?thesis .
qed

lemma loop_skips:
  assumes "scan_loop loop step" "skips_painted m0 c step"
    and "\<forall>e \<in> set pre. 1 \<le> fst e \<and> fst e \<le> 98 \<and> snd e \<in> R
            \<and> \<not> row_free R (snd e - 1) \<and> \<not> row_free R (snd e + 1)"
  shows "loop (row_state m0 c R (pre @ rest)) = loop (row_state m0 c R rest)"
  using assms(3)
proof (induction pre)
  case Nil
  then show ?case by simp
next
  case (Cons e pre)
  obtain x y where e: "e = (x, y)" by (cases e)
  with Cons.prems have xy: "1 \<le> x" "x \<le> 98" "y \<in> R" "\<not> row_free R (y - 1)" "\<not> row_free R (y + 1)"
    by auto
  have "loop (row_state m0 c R ((x, y) # pre @ rest))
          = loop (step (row_state m0 c R (pre @ rest)) (x, y))"
    using assms(1) [unfolded scan_loop_def, rule_format, of "row_state m0 c R ((x, y) # pre @ rest)"]
    by simp
  also have "step (row_state m0 c R (pre @ rest)) (x, y) = row_state m0 c R (pre @ rest)"
    using assms(2) xy unfolding skips_painted_def by blast
  finally show ?case using Cons e by simp
qed

lemma loop_done:
  assumes "scan_loop loop step"
  shows "loop (row_state m0 c R []) = row_state m0 c R []"
  using assms [unfolded scan_loop_def, rule_format, of "row_state m0 c R []"] by simp

lemma sweep_down:
  assumes "scan_loop loop step" "paints_rows m0 c step" "skips_painted m0 c step"
    and "1 \<le> lo" "lo \<le> hi" "hi < 98" "1 \<le> x" "x \<le> 98"
  shows "loop (row_state m0 c {lo..hi} ((x, hi + 1) # rest)) = loop (row_state m0 c {lo..98} rest)"
  using assms(5-8)
proof (induction "nat (98 - hi)" arbitrary: hi x rest)
  case 0
  then show ?case by simp
next
  case (Suc n)
  let ?R = "{lo..hi + 1}"
  have ins: "insert (hi + 1) {lo..hi} = ?R" using Suc.prems(1) by auto
  have free: "row_free {lo..hi} (hi + 1)" using Suc.prems assms(4) by (simp add: row_free_def)
  have step: "loop (row_state m0 c {lo..hi} ((x, hi + 1) # rest))
           = loop (row_state m0 c ?R (foldl (row_push ?R (hi + 1)) rest [1..98]))"
    using loop_row [OF assms(1,2) _ free Suc.prems(3,4), of rest] by (simp add: ins)
  obtain T where T: "foldl (row_push ?R (hi + 1)) rest [1..98]
       = (if row_free ?R (hi + 1 + 1) then [(98, hi + 1 + 1)] else []) @
         (if row_free ?R (hi + 1 - 1) then [(98, hi + 1 - 1)] else []) @ T @ rest"
    "\<forall>e \<in> set T. 1 \<le> fst e \<and> fst e \<le> 98 \<and>
        ((snd e = hi + 1 + 1 \<and> row_free ?R (hi + 1 + 1)) \<or> (snd e = hi + 1 - 1 \<and> row_free ?R (hi + 1 - 1)))"
    by (rule row_stack_split)
  have nf: "\<not> row_free ?R (hi + 1 - 1)" using Suc.prems(1) by (simp add: row_free_def)
  show ?case
  proof (cases "hi + 1 = 98")
    case True
    then have nf2: "\<not> row_free ?R (hi + 1 + 1)" by (simp add: row_free_def)
    from T(2) nf nf2 have "T = []" by (cases T) auto
    with T(1) nf nf2 step True show ?thesis by simp
  next
    case False
    with Suc.prems have lt: "hi + 1 < 98" by simp
    then have f2: "row_free ?R (hi + 1 + 1)" using assms(4) Suc.prems(1) by (simp add: row_free_def)
    have st: "foldl (row_push ?R (hi + 1)) rest [1..98] = (98, hi + 1 + 1) # T @ rest"
      using T(1) nf f2 by simp
    have n: "n = nat (98 - (hi + 1))" using Suc.hyps(2) by simp
    have "loop (row_state m0 c ?R ((98, hi + 1 + 1) # T @ rest))
            = loop (row_state m0 c {lo..98} (T @ rest))"
      using Suc.hyps(1) [OF n _ lt, of 98 "T @ rest"] Suc.prems(1) by simp
    also have "\<dots> = loop (row_state m0 c {lo..98} rest)"
    proof (rule loop_skips [OF assms(1,3)])
      show "\<forall>e \<in> set T. 1 \<le> fst e \<and> fst e \<le> 98 \<and> snd e \<in> {lo..98}
              \<and> \<not> row_free {lo..98} (snd e - 1) \<and> \<not> row_free {lo..98} (snd e + 1)"
        using T(2) nf lt Suc.prems(1) by (auto simp: row_free_def)
    qed
    finally show ?thesis using step st by simp
  qed
qed

lemma sweep_up:
  assumes "scan_loop loop step" "paints_rows m0 c step" "skips_painted m0 c step"
    and "hi \<le> 98" "1 < lo" "lo \<le> hi" "1 \<le> x" "x \<le> 98"
  shows "loop (row_state m0 c {lo..hi} ((x, lo - 1) # rest)) = loop (row_state m0 c {1..hi} rest)"
  using assms(5-8)
proof (induction "nat (lo - 1)" arbitrary: lo x rest)
  case 0
  then show ?case by simp
next
  case (Suc n)
  let ?R = "{lo - 1..hi}"
  have ins: "insert (lo - 1) {lo..hi} = ?R" using Suc.prems(2) by auto
  have free: "row_free {lo..hi} (lo - 1)" using Suc.prems assms(4) by (simp add: row_free_def)
  have step: "loop (row_state m0 c {lo..hi} ((x, lo - 1) # rest))
           = loop (row_state m0 c ?R (foldl (row_push ?R (lo - 1)) rest [1..98]))"
    using loop_row [OF assms(1,2) _ free Suc.prems(3,4), of rest] by (simp add: ins)
  obtain T where T: "foldl (row_push ?R (lo - 1)) rest [1..98]
       = (if row_free ?R (lo - 1 + 1) then [(98, lo - 1 + 1)] else []) @
         (if row_free ?R (lo - 1 - 1) then [(98, lo - 1 - 1)] else []) @ T @ rest"
    "\<forall>e \<in> set T. 1 \<le> fst e \<and> fst e \<le> 98 \<and>
        ((snd e = lo - 1 + 1 \<and> row_free ?R (lo - 1 + 1)) \<or> (snd e = lo - 1 - 1 \<and> row_free ?R (lo - 1 - 1)))"
    by (rule row_stack_split)
  have nf: "\<not> row_free ?R (lo - 1 + 1)" using Suc.prems(2) by (simp add: row_free_def)
  show ?case
  proof (cases "lo - 1 = 1")
    case True
    then have nf2: "\<not> row_free ?R (lo - 1 - 1)" by (simp add: row_free_def)
    from T(2) nf nf2 have "T = []" by (cases T) auto
    with T(1) nf nf2 step True show ?thesis by simp
  next
    case False
    with Suc.prems have lt: "1 < lo - 1" by simp
    then have f2: "row_free ?R (lo - 1 - 1)" using assms(4) Suc.prems(2) by (simp add: row_free_def)
    have st: "foldl (row_push ?R (lo - 1)) rest [1..98] = (98, lo - 1 - 1) # T @ rest"
      using T(1) nf f2 by simp
    have n: "n = nat (lo - 1 - 1)" using Suc.hyps(2) by simp
    have "loop (row_state m0 c ?R ((98, lo - 1 - 1) # T @ rest))
            = loop (row_state m0 c {1..hi} (T @ rest))"
      using Suc.hyps(1) [OF n lt, of 98 "T @ rest"] Suc.prems(2) by simp
    also have "\<dots> = loop (row_state m0 c {1..hi} rest)"
    proof (rule loop_skips [OF assms(1,3)])
      show "\<forall>e \<in> set T. 1 \<le> fst e \<and> fst e \<le> 98 \<and> snd e \<in> {1..hi}
              \<and> \<not> row_free {1..hi} (snd e - 1) \<and> \<not> row_free {1..hi} (snd e + 1)"
        using T(2) nf lt Suc.prems(2) by (auto simp: row_free_def)
    qed
    finally show ?thesis using step st by simp
  qed
qed

lemma loop_frame:
  assumes "scan_loop loop step" "paints_rows m0 c step" "skips_painted m0 c step"
  shows "loop (row_state m0 c {} [(50, 50)]) = row_state m0 c {1..98} []"
proof -
  have free: "row_free {} 50" by (simp add: row_free_def)
  have step: "loop (row_state m0 c {} [(50, 50)])
           = loop (row_state m0 c {50} (foldl (row_push {50} 50) [] [1..98]))"
    using loop_row [OF assms(1,2) _ free, of 50 "[]"] by simp
  obtain T where T: "foldl (row_push {50} 50) [] [1..98]
       = (if row_free {50} (50 + 1) then [(98, 50 + 1)] else []) @
         (if row_free {50} (50 - 1) then [(98, 50 - 1)] else []) @ T @ []"
    "\<forall>e \<in> set T. 1 \<le> fst e \<and> fst e \<le> 98 \<and>
        ((snd e = 50 + 1 \<and> row_free {50} (50 + 1)) \<or> (snd e = 50 - 1 \<and> row_free {50} (50 - 1)))"
    by (rule row_stack_split)
  have st: "foldl (row_push {50} 50) [] [1..98] = (98, 51) # (98, 49) # T"
    using T(1) by (simp add: row_free_def)
  have "loop (row_state m0 c {50..50} ((98, 50 + 1) # (98, 49) # T))
          = loop (row_state m0 c {50..98} ((98, 49) # T))"
    by (rule sweep_down [OF assms]) simp_all
  also have "\<dots> = loop (row_state m0 c {50..98} ((98, 50 - 1) # T))" by simp
  also have "\<dots> = loop (row_state m0 c {1..98} T)"
    by (rule sweep_up [OF assms]) simp_all
  also have "\<dots> = loop (row_state m0 c {1..98} (T @ []))" by simp
  also have "\<dots> = loop (row_state m0 c {1..98} [])"
  proof (rule loop_skips [OF assms(1,3)])
    show "\<forall>e \<in> set T. 1 \<le> fst e \<and> fst e \<le> 98 \<and> snd e \<in> {1..98}
            \<and> \<not> row_free {1..98} (snd e - 1) \<and> \<not> row_free {1..98} (snd e + 1)"
      using T(2) by (auto simp: row_free_def)
  qed
  also have "\<dots> = row_state m0 c {1..98} []" by (rule loop_done [OF assms(1)])
  finally show ?thesis using step st by simp
qed

subsubsection \<open>The step of the first script\<close>

lemma fill_step_row:
  assumes "alpha c \<noteq> 0" "m0 < 1" "finite R" "row_free R y" "1 \<le> x" "x \<le> 98"
  shows "fill_step frame_raster c (row_state m0 c R rest) (x, y)
           = row_state m0 c (insert y R) (foldl (row_push (insert y R) y) rest [1..98])"
proof -
  from assms(4) have y: "1 \<le> y" "y \<le> 98" "y \<notin> R" by (auto simp: row_free_def)
  have wh: "width frame_raster = 100" "height frame_raster = 100"
    by (simp_all add: frame_raster_def)
  have nv: "y * 100 + x \<notin> visited (row_state m0 c R rest)"
    using px_in_rows [OF assms(5,6), of y R] y by (simp add: row_state_def)
  have inn: "inner x y" using assms(5,6) y by (simp add: inner_def)
  have wl: "walk_left inner 100 (data (row_state m0 c R rest)) (visited (row_state m0 c R rest)) x y = 1"
    using walk_left_row [OF assms(1,4,5,6)] by (simp add: row_state_def)
  have pr: "paint_right inner 100 c y 1 (row_state m0 c R rest) = (99, row_state m0 c (insert y R) rest)"
    using paint_right_row [OF assms(1,3,4) _ _ assms(2), of 1 rest]
    by (simp add: part_state_1 part_state_99 [OF assms(3) y(3)])
  have ps: "foldl (push_rows inner 100 100 (data (row_state m0 c (insert y R) rest))
                (visited (row_state m0 c (insert y R) rest)) y) (stack (row_state m0 c (insert y R) rest)) [1..98]
              = foldl (row_push (insert y R) y) rest [1..98]"
    using foldl_push_rows_row [OF assms(1) y(1,2), of "insert y R" rest]
    by (simp add: row_state_def)
  show ?thesis
    unfolding fill_step_def Let_def wh frame_raster_inner
    using nv inn wl pr ps by simp
qed

lemma fill_step_skip:
  assumes "1 \<le> x" "x \<le> 98" "y \<in> R"
  shows "fill_step frame_raster c (row_state m0 c R rest) (x, y) = row_state m0 c R rest"
proof -
  have "y * 100 + x \<in> visited (row_state m0 c R rest)"
    using px_in_rows [OF assms(1,2), of y R] assms(3) by (simp add: row_state_def)
  then show ?thesis
    by (simp add: fill_step_def Let_def frame_raster_def)
qed

lemma fill_loop_frame:
  assumes "alpha c \<noteq> 0"
  shows "fill_loop frame_raster c (row_state (- 1) c {} [(50, 50)]) = row_state (- 1) c {1..98} []"
proof (rule loop_frame)
  show "scan_loop (fill_loop frame_raster c) (fill_step frame_raster c)"
    unfolding scan_loop_def by (intro allI) (rule fill_loop.simps)
  show "paints_rows (- 1) c (fill_step frame_raster c)"
    unfolding paints_rows_def using fill_step_row [OF assms, of "- 1"] by simp
  show "skips_painted (- 1) c (fill_step frame_raster c)"
    unfolding skips_painted_def using fill_step_skip by simp
qed

subsubsection \<open>The step of the second script\<close>

lemma frame_raster_inner_v2: "isBaseWhiteXY_v2 frame_raster = inner"
proof (intro ext)
  fix x y
  show "isBaseWhiteXY_v2 frame_raster x y = inner x y"
  proof (cases "0 \<le> x \<and> x < 100 \<and> 0 \<le> y \<and> y < 100")
    case False
    then show ?thesis by (auto simp: isBaseWhiteXY_v2_def frame_raster_def inner_def)
  next
    case True
    then have b: "0 \<le> x" "x < 100" "0 \<le> y" "y < 100" by auto
    show ?thesis
      using True frame_raster_bytes [OF b, of 0] frame_raster_bytes [OF b, of 1]
        frame_raster_bytes [OF b, of 2] frame_raster_bytes [OF b, of 3]
      by (auto simp: isBaseWhiteXY_v2_def Let_def inner_def js_gt_def js_ge_def
          frame_raster_def [THEN arg_cong, of width] frame_raster_def [THEN arg_cong, of height])
  qed
qed

lemma walk_right_row:
  assumes "alpha c \<noteq> 0" "row_free R y" "1 \<le> x" "x \<le> 98"
  shows "walk_right inner 100 (overlay_of c (rows_px R)) (rows_px R) x y = 98"
  using assms(3,4)
proof (induction "nat (98 - x)" arbitrary: x)
  case 0
  then have "x = 98" by simp
  then show ?case
    by (simp add: walk_right.simps [of inner 100 _ _ 98 y] not_fillable_frame)
next
  case (Suc n)
  then have x: "1 \<le> x + 1" "x + 1 \<le> 98" by auto
  have "n = nat (98 - (x + 1))" using Suc.hyps(2) by simp
  from Suc.hyps(1) [OF this x] fillable_rows [OF assms(1) x, of R y] assms(2) x
  show ?case
    by (simp add: walk_right.simps [of inner 100 _ _ x y])
qed

lemma paint_span_row:
  assumes "finite R" "row_free R y" "1 \<le> i" "i \<le> 99" "m0 < 1"
  shows "foldl (paint_unvisited 100 c y) (part_state m0 c R y i st) [i..98] = part_state m0 c R y 99 st"
  using assms(3,4)
proof (induction "nat (99 - i)" arbitrary: i)
  case 0
  then have "i = 99" by simp
  then show ?case by simp
next
  case (Suc n)
  then have i: "1 \<le> i" "i \<le> 98" by auto
  from assms(2) have y: "1 \<le> y" "y \<le> 98" "y \<notin> R" by (auto simp: row_free_def)
  have nv: "y * 100 + i \<notin> visited (part_state m0 c R y i st)"
    using px_not_in_part [OF i y(3)] by (simp add: part_state_def)
  have n: "n = nat (99 - (i + 1))" using Suc.hyps(2) by simp
  have "foldl (paint_unvisited 100 c y) (part_state m0 c R y (i + 1) st) [i + 1..98]
          = part_state m0 c R y 99 st"
    using Suc.hyps(1) [OF n] i by simp
  moreover have "[i..98] = i # [i + 1..98]" using i by (simp add: upto_rec1)
  ultimately show ?case
    using nv by (simp add: paint_unvisited_def paint_pixel_part [OF assms(1) i y(1,2) assms(5)])
qed

lemma fill_step_v2_row:
  assumes "alpha c \<noteq> 0" "m0 < 1" "finite R" "row_free R y" "1 \<le> x" "x \<le> 98"
  shows "fill_step_v2 frame_raster c (row_state m0 c R rest) (x, y)
           = row_state m0 c (insert y R) (foldl (row_push (insert y R) y) rest [1..98])"
proof -
  from assms(4) have y: "1 \<le> y" "y \<le> 98" "y \<notin> R" by (auto simp: row_free_def)
  have wh: "width frame_raster = 100" "height frame_raster = 100"
    by (simp_all add: frame_raster_def)
  have wl: "walk_left inner 100 (data (row_state m0 c R rest)) (visited (row_state m0 c R rest)) x y = 1"
    using walk_left_row [OF assms(1,4,5,6)] by (simp add: row_state_def)
  have wr: "walk_right inner 100 (data (row_state m0 c R rest)) (visited (row_state m0 c R rest)) 1 y = 98"
    using walk_right_row [OF assms(1,4), of 1] by (simp add: row_state_def)
  have pr: "foldl (paint_unvisited 100 c y) (row_state m0 c R rest) [1..98] = row_state m0 c (insert y R) rest"
    using paint_span_row [OF assms(3,4) _ _ assms(2), of 1 c rest]
    by (simp add: part_state_1 part_state_99 [OF assms(3) y(3)])
  have ps: "foldl (push_rows inner 100 100 (data (row_state m0 c (insert y R) rest))
                (visited (row_state m0 c (insert y R) rest)) y) (stack (row_state m0 c (insert y R) rest)) [1..98]
              = foldl (row_push (insert y R) y) rest [1..98]"
    using foldl_push_rows_row [OF assms(1) y(1,2), of "insert y R" rest]
    by (simp add: row_state_def)
  show ?thesis
    unfolding fill_step_v2_def Let_def wh frame_raster_inner_v2
    using wl wr pr ps by simp
qed

lemma fill_step_v2_skip:
  assumes "alpha c \<noteq> 0" "1 \<le> x" "x \<le> 98" "y \<in> R" "\<not> row_free R (y - 1)" "\<not> row_free R (y + 1)"
  shows "fill_step_v2 frame_raster c (row_state m0 c R rest) (x, y) = row_state m0 c R rest"
proof -
  have wh: "width frame_raster = 100" "height frame_raster = 100"
    by (simp_all add: frame_raster_def)
  have nfy: "\<not> row_free R y" using assms(4) by (simp add: row_free_def)
  have nl: "\<not> fillable inner 100 (overlay_of c (rows_px R)) (rows_px R) (x - 1) y"
  proof (cases "x = 1")
    case True
    then show ?thesis by (simp add: not_fillable_frame)
  next
    case False
    with assms(2,3) have "1 \<le> x - 1" "x - 1 \<le> 98" by auto
    from fillable_rows [OF assms(1) this, of R y] nfy show ?thesis by simp
  qed
  have nr: "\<not> fillable inner 100 (overlay_of c (rows_px R)) (rows_px R) (x + 1) y"
  proof (cases "x = 98")
    case True
    then show ?thesis by (simp add: not_fillable_frame)
  next
    case False
    with assms(2,3) have "1 \<le> x + 1" "x + 1 \<le> 98" by auto
    from fillable_rows [OF assms(1) this, of R y] nfy show ?thesis by simp
  qed
  have wl: "walk_left inner 100 (data (row_state m0 c R rest)) (visited (row_state m0 c R rest)) x y = x"
    using nl by (simp add: walk_left.simps [of inner 100 _ _ x y] row_state_def)
  have wr: "walk_right inner 100 (data (row_state m0 c R rest)) (visited (row_state m0 c R rest)) x y = x"
    using nr by (simp add: walk_right.simps [of inner 100 _ _ x y] row_state_def)
  have v: "y * 100 + x \<in> visited (row_state m0 c R rest)"
    using px_in_rows [OF assms(2,3), of y R] assms(4) by (simp add: row_state_def)
  have pr: "foldl (paint_unvisited 100 c y) (row_state m0 c R rest) [x..x] = row_state m0 c R rest"
    using v by (simp add: paint_unvisited_def)
  have ps: "foldl (push_rows inner 100 100 (data (row_state m0 c R rest))
                (visited (row_state m0 c R rest)) y) (stack (row_state m0 c R rest)) [x..x] = rest"
    using fillable_rows [OF assms(1,2,3), of R] assms(5,6)
    by (simp add: push_rows_def Let_def row_state_def)
  show ?thesis
    unfolding fill_step_v2_def Let_def wh frame_raster_inner_v2
    using wl wr pr ps by simp
qed

lemma fill_loop_v2_frame:
  assumes "alpha c \<noteq> 0"
  shows "fill_loop_v2 frame_raster c (row_state 0 c {} [(50, 50)]) = row_state 0 c {1..98} []"
proof (rule loop_frame)
  show "scan_loop (fill_loop_v2 frame_raster c) (fill_step_v2 frame_raster c)"
    unfolding scan_loop_def by (intro allI) (rule fill_loop_v2.simps)
  show "paints_rows 0 c (fill_step_v2 frame_raster c)"
    unfolding paints_rows_def using fill_step_v2_row [OF assms, of 0] by simp
  show "skips_painted 0 c (fill_step_v2 frame_raster c)"
    unfolding skips_painted_def using fill_step_v2_skip [OF assms] by simp
qed

subsubsection \<open>The result of the fill\<close>

lemma row_state_empty:
  "row_state m0 c {} st
     = \<lparr>data = replicate 40000 0, visited = {}, stack = st, filledCount = 0,
        minX = 100, minY = 100, maxX = m0, maxY = m0\<rparr>"
  by (simp add: row_state_def overlay_of_empty rows_px_def)

lemma row_state_full:
  assumes "m0 < 1"
  shows "filledCount (row_state m0 c {1..98} st) = 9604"
    and "minX (row_state m0 c {1..98} st) = 1" and "minY (row_state m0 c {1..98} st) = 1"
    and "maxX (row_state m0 c {1..98} st) = 98" and "maxY (row_state m0 c {1..98} st) = 98"
    and "data (row_state m0 c {1..98} st) = overlay_of c (rows_px {1..98})"
proof -
  have "Min (insert 100 {1..98::int}) = 1"
    by (rule Min_eqI) auto
  moreover have "Max (insert m0 {1..98::int}) = 98"
    by (rule Max_eqI) (use assms in auto)
  ultimately show "filledCount (row_state m0 c {1..98} st) = 9604"
    and "minX (row_state m0 c {1..98} st) = 1" and "minY (row_state m0 c {1..98} st) = 1"
    and "maxX (row_state m0 c {1..98} st) = 98" and "maxY (row_state m0 c {1..98} st) = 98"
    and "data (row_state m0 c {1..98} st) = overlay_of c (rows_px {1..98})"
    by (simp_all add: row_state_def)
qed

lemma rows_px_interior:
  "rows_px {1..98} = {y * 100 + x |x y. 1 \<le> x \<and> x \<le> 98 \<and> 1 \<le> y \<and> y \<le> 98}"
proof (intro set_eqI iffI)
  fix i :: int assume "i \<in> rows_px {1..98}"
  then have a: "1 \<le> i div 100" "i div 100 \<le> 98" "1 \<le> i mod 100" "i mod 100 \<le> 98"
    by (auto simp: rows_px_def)
  have "i = (i div 100) * 100 + i mod 100" by simp
  with a show "i \<in> {y * 100 + x |x y. 1 \<le> x \<and> x \<le> 98 \<and> 1 \<le> y \<and> y \<le> 98}"
    by blast
next
  fix i :: int assume "i \<in> {y * 100 + x |x y. 1 \<le> x \<and> x \<le> 98 \<and> 1 \<le> y \<and> y \<le> 98}"
  then obtain x y where "i = y * 100 + x" "1 \<le> x" "x \<le> 98" "1 \<le> y" "y \<le> 98" by blast
  then show "i \<in> rows_px {1..98}"
    using px_in_rows [of x y "{1..98}"] by simp
qed

lemma card_rows_px_interior: "card (rows_px {1..98}) = 9604"
proof -
  have "rows_px {1..98} = (\<lambda>(y, x). y * 100 + x) ` ({1..98} \<times> {1..98})"
    unfolding rows_px_interior by (auto simp: image_iff) blast
  moreover have "inj_on (\<lambda>(y, x). y * 100 + x) ({1..98::int} \<times> {1..98::int})"
  proof (rule inj_onI, clarify)
    fix y x y' x' :: int
    assume "y \<in> {1..98}" "x \<in> {1..98}" "y' \<in> {1..98}" "x' \<in> {1..98}"
      and e: "y * 100 + x = y' * 100 + x'"
    then have "(y * 100 + x) div 100 = y" "(y' * 100 + x') div 100 = y'"
      using px_div_mod(1) [of x y] px_div_mod(1) [of x' y'] by auto
    with e have "y = y'" by simp
    with e show "y = y' \<and> x = x'" by simp
  qed
  ultimately have "card (rows_px {1..98}) = card ({1..98::int} \<times> {1..98::int})"
    by (simp add: card_image)
  then show ?thesis by simp
qed

lemma floodFillOverlay_frame:
  assumes "alpha c \<noteq> 0"
  shows "floodFillOverlay frame_raster (replicate 40000 0) comps 50 50 c
           = (True, overlay_of c (rows_px {1..98}),
              comps @ [\<lparr>regionW = 98, regionH = 98, cminX = 1, cminY = 1, cmaxX = 98, cmaxY = 98\<rparr>])"
    and "filledCount (fill_loop frame_raster c
           \<lparr>data = replicate 40000 0, visited = {}, stack = [(50, 50)], filledCount = 0,
            minX = 100, minY = 100, maxX = - 1, maxY = - 1\<rparr>) = 9604"
proof -
  have wh: "width frame_raster = 100" "height frame_raster = 100"
    by (simp_all add: frame_raster_def)
  have w: "isBaseWhiteXY frame_raster 50 50" by (simp add: frame_raster_white)
  have l: "fill_loop frame_raster c
             \<lparr>data = replicate 40000 0, visited = {}, stack = [(50, 50)], filledCount = 0,
              minX = 100, minY = 100, maxX = - 1, maxY = - 1\<rparr> = row_state (- 1) c {1..98} []"
    using fill_loop_frame [OF assms] by (simp add: row_state_empty)
  show "filledCount (fill_loop frame_raster c
           \<lparr>data = replicate 40000 0, visited = {}, stack = [(50, 50)], filledCount = 0,
            minX = 100, minY = 100, maxX = - 1, maxY = - 1\<rparr>) = 9604"
    unfolding l by (rule row_state_full) simp
  show "floodFillOverlay frame_raster (replicate 40000 0) comps 50 50 c
           = (True, overlay_of c (rows_px {1..98}),
              comps @ [\<lparr>regionW = 98, regionH = 98, cminX = 1, cminY = 1, cmaxX = 98, cmaxY = 98\<rparr>])"
    unfolding floodFillOverlay_def Let_def wh
    using w l row_state_full [of "- 1" c "[]"] by simp
qed

lemma floodFillOverlay_v2_frame:
  assumes "alpha c \<noteq> 0"
  shows "floodFillOverlay_v2 frame_raster (replicate 40000 0) [] 50 50 c
           = (True, overlay_of c (rows_px {1..98}),
              [\<lparr>regionW = 97, regionH = 97, cminX = 1, cminY = 1, cmaxX = 98, cmaxY = 98\<rparr>])"
    and "filledCount (fill_loop_v2 frame_raster c
           \<lparr>data = replicate 40000 0, visited = {}, stack = [(50, 50)], filledCount = 0,
            minX = 100, minY = 100, maxX = 0, maxY = 0\<rparr>) = 9604"
proof -
  have wh: "width frame_raster = 100" "height frame_raster = 100"
    by (simp_all add: frame_raster_def)
  have w: "isBaseWhiteXY_v2 frame_raster 50 50" by (simp add: frame_raster_inner_v2 inner_def)
  have l: "fill_loop_v2 frame_raster c
             \<lparr>data = replicate 40000 0, visited = {}, stack = [(50, 50)], filledCount = 0,
              minX = 100, minY = 100, maxX = 0, maxY = 0\<rparr> = row_state 0 c {1..98} []"
    using fill_loop_v2_frame [OF assms] by (simp add: row_state_empty)
  show "filledCount (fill_loop_v2 frame_raster c
           \<lparr>data = replicate 40000 0, visited = {}, stack = [(50, 50)], filledCount = 0,
            minX = 100, minY = 100, maxX = 0, maxY = 0\<rparr>) = 9604"
    unfolding l by (rule row_state_full) simp
  show "floodFillOverlay_v2 frame_raster (replicate 40000 0) [] 50 50 c
           = (True, overlay_of c (rows_px {1..98}),
              [\<lparr>regionW = 97, regionH = 97, cminX = 1, cminY = 1, cmaxX = 98, cmaxY = 98\<rparr>])"
    unfolding floodFillOverlay_v2_def Let_def wh
    using w l row_state_full [of 0 c "[]"] by simp
qed

lemma opaque_red_hex: "hexToRgba hexDigits (Some ''#ff0000'') 255 = opaque_red"
  by code_simp

text \<open>
  C5. On the framed raster, with a transparent overlay, seed \<open>(50, 50)\<close> and the colour
  \<^verbatim>\<open>#ff0000\<close>, \<^verbatim>\<open>floodFillOverlay\<close> returns \<^verbatim>\<open>true\<close> in either script; the overlay then
  carries the colour at exactly the pixels \<open>(x, y)\<close> with \<open>1 \<le> x, y \<le> 98\<close>, of which
  there are 9604, and is transparent elsewhere; \<^verbatim>\<open>filledCount\<close> is 9604 and the
  bounding box pushed with the composite is \<open>(1, 1)\<close> to \<open>(98, 98)\<close>. (The composite's
  canvas is 98 by 98 in the first script and 97 by 97 in the second.)
\<close>

theorem frame_fill_paints_interior:
  "floodFillOverlay frame_raster (replicate 40000 0) [] 50 50 opaque_red
     = (True, overlay_of opaque_red (rows_px {1..98}),
        [\<lparr>regionW = 98, regionH = 98, cminX = 1, cminY = 1, cmaxX = 98, cmaxY = 98\<rparr>])
   \<and> filledCount (fill_loop frame_raster opaque_red
        \<lparr>data = replicate 40000 0, visited = {}, stack = [(50, 50)], filledCount = 0,
         minX = 100, minY = 100, maxX = - 1, maxY = - 1\<rparr>) = 9604
   \<and> floodFillOverlay_v2 frame_raster (replicate 40000 0) [] 50 50 opaque_red
     = (True, overlay_of opaque_red (rows_px {1..98}),
        [\<lparr>regionW = 97, regionH = 97, cminX = 1, cminY = 1, cmaxX = 98, cmaxY = 98\<rparr>])
   \<and> filledCount (fill_loop_v2 frame_raster opaque_red
        \<lparr>data = replicate 40000 0, visited = {}, stack = [(50, 50)], filledCount = 0,
         minX = 100, minY = 100, maxX = 0, maxY = 0\<rparr>) = 9604
   \<and> rows_px {1..98} = {y * 100 + x |x y. 1 \<le> x \<and> x \<le> 98 \<and> 1 \<le> y \<and> y \<le> 98}
   \<and> card (rows_px {1..98}) = 9604"
proof -
  have a: "alpha opaque_red \<noteq> 0" by (simp add: opaque_red_def)
  show ?thesis
    using floodFillOverlay_frame(1) [OF a, of "[]"] floodFillOverlay_frame(2) [OF a]
      floodFillOverlay_v2_frame [OF a]
      rows_px_interior card_rows_px_interior
    by simp
qed

end
